theory Spec2Isabelle
  imports Main "HOL-Library.Char_ord" "HOL-Library.List_Lexorder" "HOL-Library.Product_Lexorder"
begin

section \<open>JavaScript values\<close>

text \<open>
  The backend's answers are dynamically typed, and the code tests them with
  truthiness, \<^verbatim>\<open>Array.isArray\<close> and property reads. The embedding therefore works on
  a datatype of JavaScript values. Numbers are the integers (no fractions, no NaN);
  strings are byte strings; an array may carry extra named properties, as the paged
  backend result does (\<^verbatim>\<open>Array<T> & { meta }\<close>); \<open>JError\<close> stands for an instance of
  \<^verbatim>\<open>Error\<close>. An object is the list of its own enumerable properties in enumeration
  order, with distinct keys: JavaScript enumerates the keys that are array indices
  (\<^verbatim>\<open>"0"\<close>, \<^verbatim>\<open>"1"\<close>, ...) first, in ascending order, and then the other keys in
  the order in which they were created.
\<close>

datatype jsval =
    JUndefined
  | JNull
  | JBool bool
  | JNum int
  | JStr string
  | JError string
  | JArray "jsval list" "(string \<times> jsval) list"
  | JObject "(string \<times> jsval) list"

type_synonym jsobj = "(string \<times> jsval) list"

text \<open>\<^verbatim>\<open>!!v\<close>\<close>

fun truthy :: "jsval \<Rightarrow> bool" where
  "truthy JUndefined = False"
| "truthy JNull = False"
| "truthy (JBool b) = b"
| "truthy (JNum n) = (n \<noteq> 0)"
| "truthy (JStr s) = (s \<noteq> [])"
| "truthy (JError m) = True"
| "truthy (JArray xs ps) = True"
| "truthy (JObject ps) = True"

text \<open>\<^verbatim>\<open>v instanceof Error\<close>\<close>

fun is_error :: "jsval \<Rightarrow> bool" where
  "is_error (JError m) = True"
| "is_error v = False"

text \<open>\<^verbatim>\<open>Array.isArray(v)\<close>\<close>

fun isArray :: "jsval \<Rightarrow> bool" where
  "isArray (JArray xs ps) = True"
| "isArray v = False"

text \<open>\<^verbatim>\<open>v == null\<close>: the values on which a property read throws.\<close>

fun nullish :: "jsval \<Rightarrow> bool" where
  "nullish JUndefined = True"
| "nullish JNull = True"
| "nullish v = False"

text \<open>What the code can throw, and the rejection of a promise with a reason.\<close>

datatype failure =
    Rejected jsval
  | InvariantViolation
  | TypeError
  | ArgumentError

subsection \<open>Decimal numerals (property keys of indices, numbers in query strings)\<close>

definition digit :: "nat \<Rightarrow> char" where
  "digit n = ''0123456789'' ! (n mod 10)"

function show_nat :: "nat \<Rightarrow> string" where
  "show_nat n = (if n < 10 then [digit n] else show_nat (n div 10) @ [digit n])"
  by pat_completeness auto
termination
  by (relation "measure id") auto

declare show_nat.simps [simp del]

definition show_int :: "int \<Rightarrow> string" where
  "show_int i = (if i < 0 then CHR ''-'' # show_nat (nat (- i)) else show_nat (nat i))"

subsection \<open>Objects\<close>

text \<open>Reading an own property; a missing one reads as \<^verbatim>\<open>undefined\<close>.\<close>

definition get_own :: "jsobj \<Rightarrow> string \<Rightarrow> jsval" where
  "get_own ps k = (case map_of ps k of None \<Rightarrow> JUndefined | Some v \<Rightarrow> v)"

text \<open>
  \<^verbatim>\<open>v.k\<close> for a value \<open>v\<close> that is neither null nor undefined and a name \<open>k\<close> that no
  prototype defines (the code reads \<^verbatim>\<open>meta\<close>, \<^verbatim>\<open>cursors\<close> and \<^verbatim>\<open>hasNextPage\<close>).
\<close>

fun member :: "jsval \<Rightarrow> string \<Rightarrow> jsval" where
  "member (JArray xs ps) k = get_own ps k"
| "member (JObject ps) k = get_own ps k"
| "member v k = JUndefined"

text \<open>
  A property key is an array index when it is the decimal numeral, without leading
  zeros, of a number below \<open>2\<^sup>3\<^sup>2 - 1\<close>. Such numerals are ordered as numbers when they
  are ordered by length first and as texts second, which is the order of \<open>index_rank\<close>.
\<close>

definition index_rank :: "string \<Rightarrow> nat \<times> string" where
  "index_rank k = (length k, k)"

definition is_index :: "string \<Rightarrow> bool" where
  "is_index k \<longleftrightarrow>
     k \<noteq> [] \<and> (\<forall>c \<in> set k. c \<in> set ''0123456789'')
     \<and> (k = ''0'' \<or> hd k \<noteq> CHR ''0'')
     \<and> index_rank k < index_rank ''4294967295''"

definition index_value :: "string \<Rightarrow> nat" where
  "index_value k = foldl (\<lambda>n c. 10 * n + (of_char c - 48)) 0 k"

text \<open>
  \<^verbatim>\<open>o[k] = v\<close> on an object. An existing key keeps its place. A new key that is an
  array index goes among the indices, in ascending order, and any other new key goes
  last.
\<close>

fun replace_prop :: "jsobj \<Rightarrow> string \<Rightarrow> jsval \<Rightarrow> jsobj" where
  "replace_prop [] k v = []"
| "replace_prop (p # ps) k v = (if fst p = k then (k, v) # ps else p # replace_prop ps k v)"

fun insert_index :: "string \<Rightarrow> jsval \<Rightarrow> jsobj \<Rightarrow> jsobj" where
  "insert_index k v [] = [(k, v)]"
| "insert_index k v (p # ps) =
     (if is_index (fst p) \<and> index_rank (fst p) < index_rank k
      then p # insert_index k v ps
      else (k, v) # p # ps)"

definition set_prop :: "jsobj \<Rightarrow> string \<Rightarrow> jsval \<Rightarrow> jsobj" where
  "set_prop obj k v =
     (case map_of obj k of
        Some old \<Rightarrow> replace_prop obj k v
      | None \<Rightarrow> if is_index k then insert_index k v obj else obj @ [(k, v)])"

text \<open>
  The enumeration order of an object: an array index comes before every key that is not
  one, and before every larger index.
\<close>

definition key_before :: "string \<Rightarrow> string \<Rightarrow> bool" where
  "key_before a b \<longleftrightarrow>
     (if is_index a then (is_index b \<longrightarrow> index_rank a < index_rank b) else \<not> is_index b)"

definition js_ordered :: "jsobj \<Rightarrow> bool" where
  "js_ordered obj \<longleftrightarrow> sorted_wrt key_before (map fst obj)"

text \<open>The keys of an object that are not array indices, in the order supplied.\<close>

definition named_keys :: "jsobj \<Rightarrow> string list" where
  "named_keys obj = filter (\<lambda>k. \<not> is_index k) (map fst obj)"

text \<open>Object spread \<^verbatim>\<open>{ ...base, ...ext }\<close>: the properties of \<open>ext\<close> are set in turn.\<close>

definition spread :: "jsobj \<Rightarrow> jsobj \<Rightarrow> jsobj" where
  "spread base ext = foldl (\<lambda>obj (k, v). set_prop obj k v) base ext"

text \<open>The own enumerable properties of a value, as rest destructuring copies them.\<close>

definition indexed :: "'a list \<Rightarrow> (string \<times> 'a) list" where
  "indexed xs = zip (map show_nat [0..<length xs]) xs"

fun own_props :: "jsval \<Rightarrow> jsobj" where
  "own_props (JObject ps) = ps"
| "own_props (JArray xs ps) = indexed xs @ ps"
| "own_props (JStr s) = indexed (map (\<lambda>c. JStr [c]) s)"
| "own_props v = []"

text \<open>An array element \<^verbatim>\<open>xs[i]\<close>; outside the array it is \<^verbatim>\<open>undefined\<close>.\<close>

definition element :: "jsval list \<Rightarrow> int \<Rightarrow> jsval" where
  "element xs i = (if 0 \<le> i \<and> i < int (length xs) then xs ! nat i else JUndefined)"

text \<open>
  \<^verbatim>\<open>v[i]\<close> for an arbitrary value: a TypeError on null and undefined, an element of an
  array, a character of a string, the property named by the numeral on an object.
\<close>

fun js_index :: "jsval \<Rightarrow> int \<Rightarrow> failure + jsval" where
  "js_index JUndefined i = Inl TypeError"
| "js_index JNull i = Inl TypeError"
| "js_index (JArray xs ps) i = Inr (element xs i)"
| "js_index (JStr s) i = Inr (element (map (\<lambda>c. JStr [c]) s) i)"
| "js_index (JObject ps) i = Inr (get_own ps (show_int i))"
| "js_index v i = Inr JUndefined"

text \<open>lodash \<^verbatim>\<open>omit(object, keys)\<close> and \<^verbatim>\<open>pick(object, keys)\<close> for plain keys.\<close>

definition omit :: "jsobj \<Rightarrow> string list \<Rightarrow> jsobj" where
  "omit obj keys = filter (\<lambda>(k, v). k \<notin> set keys) obj"

definition pick :: "jsobj \<Rightarrow> string list \<Rightarrow> jsobj" where
  "pick obj keys =
     foldl (\<lambda>result k. case map_of obj k of None \<Rightarrow> result | Some v \<Rightarrow> set_prop result k v)
           [] keys"

subsection \<open>Promises\<close>

text \<open>
  A settled promise is a sum: \<open>Inl\<close> the reason of a rejection, \<open>Inr\<close> the value.
  \<^verbatim>\<open>Promise.all\<close> rejects with the reason of the input that rejects first in time and
  otherwise resolves with the values by position. The order in which the inputs settle
  is the parameter \<open>order\<close>, a list of positions; positions it leaves out settle
  afterwards, from left to right.
\<close>

definition rejections :: "nat list \<Rightarrow> ('e + 'a) list \<Rightarrow> 'e list" where
  "rejections order ps =
     List.map_filter
       (\<lambda>i. if i < length ps then (case ps ! i of Inl e \<Rightarrow> Some e | Inr v \<Rightarrow> None) else None)
       (order @ [0..<length ps])"

definition promise_all :: "nat list \<Rightarrow> ('e + 'a) list \<Rightarrow> 'e + 'a list" where
  "promise_all order ps =
     (case rejections order ps of
        e # es \<Rightarrow> Inl e
      | [] \<Rightarrow> Inr (List.map_filter (\<lambda>p. case p of Inl e \<Rightarrow> None | Inr v \<Rightarrow> Some v) ps))"

text \<open>\<^verbatim>\<open>p.catch(e => e)\<close>: the promise resolves, with the reason if \<open>p\<close> rejected.\<close>

definition catch_identity :: "jsval + jsval \<Rightarrow> jsval" where
  "catch_identity p = (case p of Inl e \<Rightarrow> e | Inr v \<Rightarrow> v)"

text \<open>
  The DataLoader library, for one batch window with the distinct keys \<open>keys\<close>: the
  batch function runs once; when it rejects, every key rejects; when it returns a list
  of another length, every key rejects with a TypeError; otherwise the key at position
  \<open>i\<close> rejects if the value at \<open>i\<close> is an instance of Error and resolves with it if not.
  The library also keeps the promise of a key for later loads of the same key; the backend
  of the embedding answers a request the same way each time, so this cache cannot be
  observed in it and is left out.
\<close>

definition DataLoader_window ::
  "(string list \<Rightarrow> jsval + jsval list) \<Rightarrow> string list \<Rightarrow> (jsval + jsval) list" where
  "DataLoader_window batchFn keys =
     (case batchFn keys of
        Inl e \<Rightarrow> map (\<lambda>k. Inl e) keys
      | Inr values \<Rightarrow>
          if length values \<noteq> length keys
          then map (\<lambda>k. Inl (JError ''TypeError: DataLoader batch function'')) keys
          else map (\<lambda>v. if is_error v then Inl v else Inr v) values)"

definition DataLoader_load ::
  "(string list \<Rightarrow> jsval + jsval list) \<Rightarrow> string list \<Rightarrow> nat \<Rightarrow> jsval + jsval" where
  "DataLoader_load batchFn keys i = DataLoader_window batchFn keys ! i"

section \<open>The query-string codec\<close>

text \<open>
  \<^verbatim>\<open>qs: QueryString = querystring\<close>: the codec is a field of the class, and its
  default is the \<^verbatim>\<open>querystring\<close> module of Node.js.
\<close>

record QueryString =
  parse :: "string \<Rightarrow> jsobj"
  stringify :: "jsobj \<Rightarrow> string"

text \<open>
  \<^verbatim>\<open>querystring.escape\<close>: every byte is percent-encoded, except the letters, the digits
  and \<^verbatim>\<open>- _ . ! ~ * ' ( )\<close>.
\<close>

definition unreserved :: "char \<Rightarrow> bool" where
  "unreserved c \<longleftrightarrow>
     c \<in> set ''ABCDEFGHIJKLMNOPQRSTUVWXYZabcdefghijklmnopqrstuvwxyz0123456789-_.!~*()''
     \<or> c = CHR 0x27"

definition hex_digit :: "nat \<Rightarrow> char" where
  "hex_digit n = ''0123456789ABCDEF'' ! (n mod 16)"

definition escape_char :: "char \<Rightarrow> string" where
  "escape_char c =
     (if unreserved c then [c]
      else [CHR ''%'', hex_digit (of_char c div 16), hex_digit (of_char c)])"

definition escape :: "string \<Rightarrow> string" where
  "escape s = concat (map escape_char s)"

fun stringifyPrimitive :: "jsval \<Rightarrow> string" where
  "stringifyPrimitive (JStr s) = s"
| "stringifyPrimitive (JNum n) = show_int n"
| "stringifyPrimitive (JBool b) = (if b then ''true'' else ''false'')"
| "stringifyPrimitive v = []"

text \<open>
  \<^verbatim>\<open>querystring.stringify(obj)\<close>: the keys in the enumeration order of the object,
  \<^verbatim>\<open>key=value\<close> joined by \<^verbatim>\<open>&\<close>; an array gives one pair for each element and
  an empty array gives none (older releases of Node leave a trailing \<^verbatim>\<open>&\<close> when
  the last value is an empty array). Any value that is not a string, a number or a
  boolean is serialised as the empty string.
\<close>

definition join_with :: "string \<Rightarrow> string list \<Rightarrow> string" where
  "join_with sep xs = (case xs of [] \<Rightarrow> [] | y # ys \<Rightarrow> foldl (\<lambda>acc z. acc @ sep @ z) y ys)"

definition stringify_field :: "string \<Rightarrow> string \<times> jsval \<Rightarrow> string" where
  "stringify_field acc kv =
     (let ks = escape (fst kv) @ ''=''
      in case snd kv of
           JArray vs ps \<Rightarrow>
             if vs = [] then acc
             else (if acc \<noteq> [] then acc @ ''&'' else acc)
                  @ join_with ''&'' (map (\<lambda>v. ks @ escape (stringifyPrimitive v)) vs)
         | v \<Rightarrow> (if acc \<noteq> [] then acc @ ''&'' else acc)
                @ ks @ escape (stringifyPrimitive v))"

definition querystring_stringify :: "jsobj \<Rightarrow> string" where
  "querystring_stringify obj = foldl stringify_field [] obj"

text \<open>
  \<^verbatim>\<open>querystring.parse(str)\<close>: the pieces between \<^verbatim>\<open>&\<close>, each cut at its first
  \<^verbatim>\<open>=\<close>; \<^verbatim>\<open>+\<close> is a space and \<^verbatim>\<open>%XX\<close> a byte; a repeated key collects its
  values in an array. (The limit of 1000 keys is left out.)
\<close>

definition hex_value :: "char \<Rightarrow> nat option" where
  "hex_value c =
     (let n = (of_char c :: nat)
      in if 48 \<le> n \<and> n \<le> 57 then Some (n - 48)
         else if 65 \<le> n \<and> n \<le> 70 then Some (n - 55)
         else if 97 \<le> n \<and> n \<le> 102 then Some (n - 87)
         else None)"

fun unescape :: "string \<Rightarrow> string" where
  "unescape [] = []"
| "unescape [c] = [c]"
| "unescape [c, d] = [c, d]"
| "unescape (c # a # b # cs) =
     (if c = CHR ''%'' then
        (case (hex_value a, hex_value b) of
           (Some x, Some y) \<Rightarrow> char_of (16 * x + y) # unescape cs
         | _ \<Rightarrow> c # unescape (a # b # cs))
      else c # unescape (a # b # cs))"

definition decode_component :: "string \<Rightarrow> string" where
  "decode_component s = unescape (map (\<lambda>c. if c = CHR ''+'' then CHR '' '' else c) s)"

definition add_param :: "jsobj \<Rightarrow> string \<Rightarrow> string \<Rightarrow> jsobj" where
  "add_param obj k v =
     (case map_of obj k of
        None \<Rightarrow> set_prop obj k (JStr v)
      | Some (JArray vs ps) \<Rightarrow> set_prop obj k (JArray (vs @ [JStr v]) ps)
      | Some old \<Rightarrow> set_prop obj k (JArray [old, JStr v] []))"

text \<open>\<^verbatim>\<open>s.split(c)\<close> for a one-character separator: the first piece and the others.\<close>

fun split_on :: "char \<Rightarrow> string \<Rightarrow> string \<times> string list" where
  "split_on c [] = ([], [])"
| "split_on c (x # xs) =
     (case split_on c xs of
        (p, ps) \<Rightarrow> if x = c then ([], p # ps) else (x # p, ps))"

definition querystring_parse :: "string \<Rightarrow> jsobj" where
  "querystring_parse str =
     (case split_on CHR ''&'' str of
        (p, ps) \<Rightarrow>
          foldl (\<lambda>obj pair.
                   if pair = [] then obj
                   else add_param obj
                          (decode_component (takeWhile (\<lambda>c. c \<noteq> CHR ''='') pair))
                          (decode_component (drop 1 (dropWhile (\<lambda>c. c \<noteq> CHR ''='') pair))))
                [] (p # ps))"

definition querystring :: QueryString where
  "querystring = \<lparr>parse = querystring_parse, stringify = querystring_stringify\<rparr>"

section \<open>The class HttpApi\<close>

datatype HttpMethod = GET | POST | PUT | PATCH | DELETE

text \<open>
  The fields of an instance. \<open>request\<close> is the abstract method that a subclass supplies:
  given the method, the URL and the body it settles with a value or rejects with a
  reason, the same way each time it is asked. \<open>urlJoin\<close> is the helper imported from \<^verbatim>\<open>utils/urlJoin\<close>, taken as a
  parameter.
\<close>

record HttpApi =
  private_origin :: string
  private_apiBase :: string
  private_externalOrigin :: string
  qs :: QueryString
  numKeysPerChunk :: int
  request :: "HttpMethod \<Rightarrow> string \<Rightarrow> jsval \<Rightarrow> jsval + jsval"
  urlJoin :: "string \<Rightarrow> string \<Rightarrow> string"

record HttpApiOptions =
  apiBase :: string
  origin :: string
  externalOrigin :: string

definition HttpApi_constructor ::
  "HttpApiOptions \<Rightarrow> (HttpMethod \<Rightarrow> string \<Rightarrow> jsval \<Rightarrow> jsval + jsval)
     \<Rightarrow> (string \<Rightarrow> string \<Rightarrow> string) \<Rightarrow> HttpApi" where
  "HttpApi_constructor opts req join =
     \<lparr>private_origin = origin opts,
      private_apiBase = apiBase opts,
      private_externalOrigin = externalOrigin opts,
      qs = querystring,
      numKeysPerChunk = 25,
      request = req,
      urlJoin = join\<rparr>"

text \<open>\<^verbatim>\<open>_getUrl(path, origin = this._origin)\<close>\<close>

definition getUrl' :: "HttpApi \<Rightarrow> string \<Rightarrow> string option \<Rightarrow> string" where
  "getUrl' api path origin_arg =
     (case origin_arg of None \<Rightarrow> private_origin api | Some orig \<Rightarrow> orig)
     @ urlJoin api (private_apiBase api) path"

definition makePath :: "HttpApi \<Rightarrow> string \<Rightarrow> jsobj option \<Rightarrow> string" where
  "makePath api path args =
     (case args of
        None \<Rightarrow> path
      | Some a \<Rightarrow>
          (case split_on CHR ''?'' path of
             (pathBase, rest) \<Rightarrow>
               let query = (case rest of
                              [] \<Rightarrow> []
                            | searchBase # others \<Rightarrow>
                                if searchBase \<noteq> [] then parse (qs api) searchBase else []);
                   search = stringify (qs api) (spread (spread [] query) a)
               in if search = [] then pathBase else pathBase @ ''?'' @ search))"

definition getUrl :: "HttpApi \<Rightarrow> string \<Rightarrow> jsobj option \<Rightarrow> string" where
  "getUrl api path args = getUrl' api (makePath api path args) None"

definition getExternalUrl :: "HttpApi \<Rightarrow> string \<Rightarrow> jsobj option \<Rightarrow> string" where
  "getExternalUrl api path args =
     getUrl' api (makePath api path args) (Some (private_externalOrigin api))"

subsection \<open>The single-key loader\<close>

text \<open>
  The batch function of \<^verbatim>\<open>this._loader\<close>: one GET for each path, each with
  \<^verbatim>\<open>.catch(e => e)\<close>, under \<^verbatim>\<open>Promise.all\<close>.
\<close>

definition loader_batchFn :: "HttpApi \<Rightarrow> nat list \<Rightarrow> string list \<Rightarrow> jsval + jsval list" where
  "loader_batchFn api order paths =
     promise_all order
       (map (\<lambda>path. Inr (catch_identity (request api GET (getUrl' api path None) JUndefined)))
            paths)"

text \<open>\<^verbatim>\<open>this._loader.load(key)\<close>, in a window of its own.\<close>

definition load :: "HttpApi \<Rightarrow> string \<Rightarrow> jsval + jsval" where
  "load api key = DataLoader_load (loader_batchFn api []) [key] 0"

definition get :: "HttpApi \<Rightarrow> string \<Rightarrow> jsobj option \<Rightarrow> jsval + jsval" where
  "get api path args = load api (makePath api path args)"

subsection \<open>Connections\<close>

record Edge =
  node :: jsval
  cursor :: jsval

record PageInfo =
  startCursor :: jsval
  endCursor :: jsval
  hasPreviousPage :: bool
  hasNextPage :: jsval

record Connection =
  edges :: "Edge list"
  pageInfo :: PageInfo
  meta :: jsobj

fun map_result :: "('a \<Rightarrow> 'e + 'b) \<Rightarrow> 'a list \<Rightarrow> 'e + 'b list" where
  "map_result f [] = Inr []"
| "map_result f (x # xs) =
     (case f x of
        Inl e \<Rightarrow> Inl e
      | Inr y \<Rightarrow> (case map_result f xs of Inl e \<Rightarrow> Inl e | Inr ys \<Rightarrow> Inr (y # ys)))"

text \<open>\<^verbatim>\<open>{ node: item, cursor: cursors[i] }\<close>\<close>

definition make_edge :: "jsval \<Rightarrow> nat \<times> jsval \<Rightarrow> failure + Edge" where
  "make_edge cursors p =
     (case js_index cursors (int (fst p)) of
        Inl e \<Rightarrow> Inl e
      | Inr c \<Rightarrow> Inr \<lparr>node = snd p, cursor = c\<rparr>)"

text \<open>\<^verbatim>\<open>items[i] ? cursors[i] : null\<close>\<close>

definition boundary_cursor :: "jsval list \<Rightarrow> jsval \<Rightarrow> int \<Rightarrow> failure + jsval" where
  "boundary_cursor items cursors i =
     (if truthy (element items i) then js_index cursors i else Inr JNull)"

text \<open>
  The part of \<^verbatim>\<open>getPaginatedConnection\<close> after the two checks. A value that is not an
  array has no \<^verbatim>\<open>map\<close> method, and the call of it is a TypeError.
\<close>

definition connection_of_page :: "jsval \<Rightarrow> jsval \<Rightarrow> failure + Connection option" where
  "connection_of_page items after =
     (let m = member items ''meta'';
          cursors = member m ''cursors'';
          hasNext = member m ''hasNextPage'';
          rest = filter (\<lambda>(k, v). k \<noteq> ''cursors'' \<and> k \<noteq> ''hasNextPage'') (own_props m)
      in case items of
           JArray xs ps \<Rightarrow>
             (let lastIndex = int (length xs) - 1;
                  hasPrev = truthy after
              in case map_result (make_edge cursors) (enumerate 0 xs) of
                   Inl e \<Rightarrow> Inl e
                 | Inr es \<Rightarrow>
                     (case boundary_cursor xs cursors 0 of
                        Inl e \<Rightarrow> Inl e
                      | Inr sc \<Rightarrow>
                          (case boundary_cursor xs cursors lastIndex of
                             Inl e \<Rightarrow> Inl e
                           | Inr ec \<Rightarrow>
                               Inr (Some \<lparr>edges = es,
                                          pageInfo = \<lparr>startCursor = sc, endCursor = ec,
                                                      hasPreviousPage = hasPrev,
                                                      hasNextPage = hasNext\<rparr>,
                                          meta = rest\<rparr>))))
         | v \<Rightarrow> Inl TypeError)"

text \<open>
  The arguments sent to the backend:
  \<^verbatim>\<open>{ ...args, cursor: after, limit: first, pageSize: first }\<close>, where \<^verbatim>\<open>args\<close> is
  what is left of the incoming arguments without \<^verbatim>\<open>after\<close> and \<^verbatim>\<open>first\<close>.
\<close>

definition paged_args :: "jsobj \<Rightarrow> jsobj" where
  "paged_args args0 =
     (let after = get_own args0 ''after'';
          first = get_own args0 ''first'';
          args = filter (\<lambda>(k, v). k \<noteq> ''after'' \<and> k \<noteq> ''first'') args0
      in spread (spread [] args)
           [(''cursor'', after), (''limit'', first), (''pageSize'', first)])"

definition getPaginatedConnection ::
  "HttpApi \<Rightarrow> string \<Rightarrow> jsobj \<Rightarrow> failure + Connection option" where
  "getPaginatedConnection api path args0 =
     (let after = get_own args0 ''after''
      in case get api (makePath api path (Some (paged_args args0))) None of
           Inl e \<Rightarrow> Inl (Rejected e)
         | Inr items \<Rightarrow>
             if \<not> truthy items then Inr None
             else if \<not> truthy (member items ''meta'') then Inl InvariantViolation
             else connection_of_page items after)"

subsection \<open>Array connections of graphql-relay\<close>

text \<open>
  \<^verbatim>\<open>PAGINATION_ARG_KEYS = Object.keys(forwardConnectionArgs)\<close>: the library's forward
  arguments are \<^verbatim>\<open>after\<close> and \<^verbatim>\<open>first\<close>.
\<close>

definition PAGINATION_ARG_KEYS :: "string list" where
  "PAGINATION_ARG_KEYS = [''after'', ''first'']"

text \<open>
  The library encodes an offset as the base-64 text of \<^verbatim>\<open>arrayconnection:<offset>\<close>
  and decodes a cursor with \<^verbatim>\<open>parseInt\<close>. The two functions are parameters here;
  a cursor that decodes to NaN gives \<open>None\<close>.
\<close>

record CursorCodec =
  offsetToCursor :: "int \<Rightarrow> string"
  cursorToOffset :: "string \<Rightarrow> int option"

definition getOffsetWithDefault :: "CursorCodec \<Rightarrow> jsval \<Rightarrow> int \<Rightarrow> int" where
  "getOffsetWithDefault codec c defaultOffset =
     (case c of
        JStr s \<Rightarrow> (case cursorToOffset codec s of None \<Rightarrow> defaultOffset | Some n \<Rightarrow> n)
      | v \<Rightarrow> defaultOffset)"

text \<open>\<^verbatim>\<open>xs.slice(b, e)\<close>: a negative bound counts from the end.\<close>

definition js_slice :: "'a list \<Rightarrow> int \<Rightarrow> int \<Rightarrow> 'a list" where
  "js_slice xs b e =
     (let len = int (length xs);
          k = (if b < 0 then max (len + b) 0 else min b len);
          final = (if e < 0 then max (len + e) 0 else min e len)
      in take (nat (final - k)) (drop (nat k) xs))"

text \<open>\<^verbatim>\<open>typeof v === 'number'\<close>, with the number.\<close>

fun as_number :: "jsval \<Rightarrow> int option" where
  "as_number (JNum n) = Some n"
| "as_number v = None"

definition connectionFromArraySlice ::
  "CursorCodec \<Rightarrow> jsval list \<Rightarrow> jsobj \<Rightarrow> int \<Rightarrow> int \<Rightarrow> failure + Connection" where
  "connectionFromArraySlice codec arraySlice args sliceStart arrayLength =
     (let after = get_own args ''after'';
          before' = get_own args ''before'';
          first = get_own args ''first'';
          last = get_own args ''last'';
          sliceEnd = sliceStart + int (length arraySlice);
          beforeOffset = getOffsetWithDefault codec before' arrayLength;
          afterOffset = getOffsetWithDefault codec after (- 1);
          startOffset0 = max (max (sliceStart - 1) afterOffset) (- 1) + 1;
          endOffset0 = min (min sliceEnd beforeOffset) arrayLength
      in if (case as_number first of Some n \<Rightarrow> n < 0 | None \<Rightarrow> False) then Inl ArgumentError
         else
           let endOffset = (case as_number first of
                              Some n \<Rightarrow> min endOffset0 (startOffset0 + n)
                            | None \<Rightarrow> endOffset0)
           in if (case as_number last of Some n \<Rightarrow> n < 0 | None \<Rightarrow> False) then Inl ArgumentError
              else
                let startOffset = (case as_number last of
                                     Some n \<Rightarrow> max startOffset0 (endOffset - n)
                                   | None \<Rightarrow> startOffset0);
                    slice = js_slice arraySlice
                              (max (startOffset - sliceStart) 0)
                              (int (length arraySlice) - (sliceEnd - endOffset));
                    es = map (\<lambda>(index, v).
                                \<lparr>node = v,
                                 cursor = JStr (offsetToCursor codec (startOffset + int index))\<rparr>)
                             (enumerate 0 slice);
                    lowerBound = (if truthy after then afterOffset + 1 else 0);
                    upperBound = (if truthy before' then beforeOffset else arrayLength)
                in Inr \<lparr>edges = es,
                        pageInfo =
                          \<lparr>startCursor = (case es of [] \<Rightarrow> JNull | e # _ \<Rightarrow> cursor e),
                           endCursor = (if es = [] then JNull else cursor (List.last es)),
                           hasPreviousPage =
                             (case as_number last of
                                Some n \<Rightarrow> lowerBound < startOffset | None \<Rightarrow> False),
                           hasNextPage =
                             JBool (case as_number first of
                                      Some n \<Rightarrow> endOffset < upperBound | None \<Rightarrow> False)\<rparr>,
                        meta = []\<rparr>)"

definition connectionFromArray :: "CursorCodec \<Rightarrow> jsval list \<Rightarrow> jsobj \<Rightarrow> failure + Connection" where
  "connectionFromArray codec data args =
     connectionFromArraySlice codec data args 0 (int (length data))"

definition getUnpaginatedConnection ::
  "HttpApi \<Rightarrow> CursorCodec \<Rightarrow> string \<Rightarrow> jsobj \<Rightarrow> failure + Connection option" where
  "getUnpaginatedConnection api codec path args =
     (let apiArgs = omit args PAGINATION_ARG_KEYS;
          paginationArgs = pick args PAGINATION_ARG_KEYS
      in case get api (makePath api path (Some apiArgs)) None of
           Inl e \<Rightarrow> Inl (Rejected e)
         | Inr items \<Rightarrow>
             (case items of
                JArray xs ps \<Rightarrow>
                  (case connectionFromArray codec xs paginationArgs of
                     Inl e \<Rightarrow> Inl e
                   | Inr c \<Rightarrow> Inr (Some (c\<lparr>meta := []\<rparr>)))
              | v \<Rightarrow> Inl InvariantViolation))"

subsection \<open>The keyed bulk loader\<close>

text \<open>lodash \<^verbatim>\<open>chunk(array, size)\<close>, the size already an integer.\<close>

function chunk_from :: "nat \<Rightarrow> 'a list \<Rightarrow> 'a list list" where
  "chunk_from n xs =
     (if xs = [] \<or> n = 0 then [] else take n xs # chunk_from n (drop n xs))"
  by pat_completeness auto
termination
  by (relation "measure (\<lambda>(n, xs). length xs)") auto

declare chunk_from.simps [simp del]

definition chunk :: "'a list \<Rightarrow> int \<Rightarrow> 'a list list" where
  "chunk array n =
     (let n' = max n 0
      in if array = [] \<or> n' < 1 then [] else chunk_from (nat n') array)"

text \<open>
  lodash \<^verbatim>\<open>flatten(array)\<close>: one level; the elements of an array are spliced in, any
  other value stays as it is.
\<close>

definition flatten :: "jsval list \<Rightarrow> jsval list" where
  "flatten vs = concat (map (\<lambda>v. case v of JArray xs ps \<Rightarrow> xs | w \<Rightarrow> [w]) vs)"

text \<open>
  \<^verbatim>\<open>itemsByKey\<close> is an object literal, so it inherits the members of
  \<^verbatim>\<open>Object.prototype\<close>. A read \<^verbatim>\<open>itemsByKey[key]\<close> of a key that the object does not
  own finds a function (or, for \<^verbatim>\<open>__proto__\<close>, the prototype itself) under these names,
  and \<^verbatim>\<open>undefined\<close> under every other name.
\<close>

definition object_prototype_keys :: "string list" where
  "object_prototype_keys =
     [''constructor'', ''__defineGetter__'', ''__defineSetter__'', ''hasOwnProperty'',
      ''__lookupGetter__'', ''__lookupSetter__'', ''isPrototypeOf'',
      ''propertyIsEnumerable'', ''toString'', ''valueOf'', ''__proto__'',
      ''toLocaleString'']"

text \<open>
  The assignment \<^verbatim>\<open>itemsByKey['__proto__'] = []\<close> does not create a property: it
  runs the setter inherited from \<^verbatim>\<open>Object.prototype\<close>, which makes the new array the
  prototype of \<^verbatim>\<open>itemsByKey\<close>. From then on \<^verbatim>\<open>itemsByKey['__proto__']\<close> reads that
  array, and a key that the object does not own is looked up in the array: in its
  elements, its \<^verbatim>\<open>length\<close>, the members of \<^verbatim>\<open>Array.prototype\<close> and those of
  \<^verbatim>\<open>Object.prototype\<close>. The names of the members of \<^verbatim>\<open>Array.prototype\<close> depend on
  the edition of the language that the engine implements; they are the parameter
  \<open>arrayMembers\<close> below.

  So \<^verbatim>\<open>itemsByKey\<close> is its own properties, each an array of items, and the array that
  replaced its prototype, if one did.
\<close>

record ItemsByKey =
  own_lists :: "string \<rightharpoonup> jsval list"
  proto_array :: "jsval list option"

text \<open>The failures of the batch function.\<close>

datatype batch_failure =
    ChunkRejected jsval
  | PushNotAFunction

text \<open>\<^verbatim>\<open>keys.forEach(key => { itemsByKey[key] = []; })\<close>\<close>

definition init_itemsByKey :: "string list \<Rightarrow> ItemsByKey" where
  "init_itemsByKey keys =
     foldl (\<lambda>obj key.
              if key = ''__proto__'' then obj\<lparr>proto_array := Some []\<rparr>
              else obj\<lparr>own_lists := (own_lists obj)(key \<mapsto> [])\<rparr>)
           \<lparr>own_lists = Map.empty, proto_array = None\<rparr> keys"

text \<open>
  The body of \<^verbatim>\<open>items.forEach\<close>. An own property is one of the arrays, and the item
  is pushed. Otherwise the key is looked up along the prototypes. A value found there
  that is truthy and has no \<^verbatim>\<open>push\<close> method makes the call throw a TypeError: a
  function, a positive \<^verbatim>\<open>length\<close>, an element that is not an array.  An element that
  is an array (an item that is itself an array) receives the item; every item of the
  responses is taken to be an object of its own, so that this array occurs nowhere else.
  A key that is found nowhere reads as \<^verbatim>\<open>undefined\<close>, as does the \<^verbatim>\<open>length\<close> 0, and
  the item is skipped.
\<close>

definition add_item ::
  "string list \<Rightarrow> (jsval \<Rightarrow> string) \<Rightarrow> ItemsByKey \<Rightarrow> jsval \<Rightarrow> batch_failure + ItemsByKey" where
  "add_item arrayMembers getKey itemsByKey item =
     (let key = getKey item
      in case own_lists itemsByKey key of
           Some xs \<Rightarrow> Inr (itemsByKey\<lparr>own_lists := (own_lists itemsByKey)(key \<mapsto> xs @ [item])\<rparr>)
         | None \<Rightarrow>
             (case proto_array itemsByKey of
                None \<Rightarrow>
                  if key \<in> set object_prototype_keys then Inl PushNotAFunction
                  else Inr itemsByKey
              | Some arr \<Rightarrow>
                  if key = ''__proto__'' then Inr (itemsByKey\<lparr>proto_array := Some (arr @ [item])\<rparr>)
                  else if is_index key \<and> index_value key < length arr then
                    (case arr ! index_value key of
                       JArray ys ps \<Rightarrow>
                         if map_of ps ''push'' = None
                         then Inr (itemsByKey\<lparr>proto_array :=
                                     Some (arr[index_value key := JArray (ys @ [item]) ps])\<rparr>)
                         else Inl PushNotAFunction
                     | v \<Rightarrow> Inl PushNotAFunction)
                  else if key = ''length'' then
                    (if arr = [] then Inr itemsByKey else Inl PushNotAFunction)
                  else if key \<in> set arrayMembers \<or> key \<in> set object_prototype_keys
                  then Inl PushNotAFunction
                  else Inr itemsByKey))"

fun add_items ::
  "string list \<Rightarrow> (jsval \<Rightarrow> string) \<Rightarrow> ItemsByKey \<Rightarrow> jsval list
     \<Rightarrow> batch_failure + ItemsByKey" where
  "add_items arrayMembers getKey itemsByKey [] = Inr itemsByKey"
| "add_items arrayMembers getKey itemsByKey (item # items) =
     (case add_item arrayMembers getKey itemsByKey item of
        Inl e \<Rightarrow> Inl e
      | Inr obj \<Rightarrow> add_items arrayMembers getKey obj items)"

text \<open>
  \<^verbatim>\<open>itemsByKey[key]\<close> for a requested key: the own property, or for \<^verbatim>\<open>__proto__\<close>
  the array that became the prototype; \<open>None\<close> stands for \<^verbatim>\<open>undefined\<close>.
\<close>

definition lists_of :: "ItemsByKey \<Rightarrow> string \<Rightarrow> jsval list option" where
  "lists_of itemsByKey key =
     (if key = ''__proto__'' then proto_array itemsByKey else own_lists itemsByKey key)"

text \<open>The batch function that \<^verbatim>\<open>createLoader\<close> gives to DataLoader.\<close>

definition createLoader_batchFn ::
  "HttpApi \<Rightarrow> string list \<Rightarrow> (string list \<Rightarrow> string) \<Rightarrow> (jsval \<Rightarrow> string) \<Rightarrow> nat list
     \<Rightarrow> string list \<Rightarrow> batch_failure + jsval list option list" where
  "createLoader_batchFn api arrayMembers getPath getKey order keys =
     (case promise_all order
             (map (\<lambda>chunkKeys. request api GET (getPath chunkKeys) JUndefined)
                  (chunk keys (numKeysPerChunk api))) of
        Inl e \<Rightarrow> Inl (ChunkRejected e)
      | Inr chunkedItems \<Rightarrow>
          let items = filter truthy (flatten chunkedItems)
          in case add_items arrayMembers getKey (init_itemsByKey keys) items of
               Inl e \<Rightarrow> Inl e
             | Inr itemsByKey \<Rightarrow> Inr (map (lists_of itemsByKey) keys))"

text \<open>\<^verbatim>\<open>createArgLoader(path, key)\<close>: the keys go into one query parameter.\<close>

definition createArgLoader_getPath :: "HttpApi \<Rightarrow> string \<Rightarrow> string \<Rightarrow> string list \<Rightarrow> string" where
  "createArgLoader_getPath api path key keys =
     getUrl api path (Some [(key, JArray (map JStr keys) [])])"

section \<open>Argument mappings that differ in key order\<close>

text \<open>
  Two argument objects hold the same key-value pairs, possibly supplied in another
  order, when each has distinct keys and their sets of pairs are equal. A codec is
  insensitive to the order when it serialises two such objects to the same text.
\<close>

definition same_entries :: "jsobj \<Rightarrow> jsobj \<Rightarrow> bool" where
  "same_entries a b \<longleftrightarrow> distinct (map fst a) \<and> distinct (map fst b) \<and> set a = set b"

definition order_insensitive :: "QueryString \<Rightarrow> bool" where
  "order_insensitive codec \<longleftrightarrow>
     (\<forall>a b. same_entries a b \<longrightarrow> stringify codec a = stringify codec b)"

section \<open>Computed keys that a prototype answers\<close>

text \<open>
  A key that \<^verbatim>\<open>itemsByKey\<close> does not own can still be found along its prototypes:
  always when it names a member of \<^verbatim>\<open>Object.prototype\<close>, and, once the array of the
  requested key \<^verbatim>\<open>__proto__\<close> has become the prototype, also when it names a member
  of \<^verbatim>\<open>Array.prototype\<close>, is \<^verbatim>\<open>length\<close>, or is an array index.
\<close>

definition reserved :: "string list \<Rightarrow> bool \<Rightarrow> string \<Rightarrow> bool" where
  "reserved arrayMembers replaced k \<longleftrightarrow>
     k \<in> set object_prototype_keys
     \<or> (replaced \<and> (k \<in> set arrayMembers \<or> k = ''length'' \<or> is_index k))"

section \<open>Example instances\<close>

text \<open>
  An instance whose backend answers a URL from a table and resolves with \<^verbatim>\<open>null\<close>
  for any other URL; \<open>urlJoin\<close> is plain concatenation here.
\<close>

definition table_backend ::
  "(string \<times> (jsval + jsval)) list \<Rightarrow> HttpMethod \<Rightarrow> string \<Rightarrow> jsval \<Rightarrow> jsval + jsval" where
  "table_backend table method url body =
     (case map_of table url of None \<Rightarrow> Inr JNull | Some r \<Rightarrow> r)"

definition example_api :: "(string \<times> (jsval + jsval)) list \<Rightarrow> HttpApi" where
  "example_api table =
     HttpApi_constructor
       \<lparr>apiBase = ''/v1'', origin = ''http://api'', externalOrigin = ''http://ext''\<rparr>
       (table_backend table)
       (\<lambda>base path. base @ path)"

text \<open>A page of the paged backend with two cursors and one more field in its \<^verbatim>\<open>meta\<close>.\<close>

definition example_page :: "jsval list \<Rightarrow> jsval" where
  "example_page items =
     JArray items
       [(''meta'', JObject [(''cursors'', JArray [JStr ''c0'', JStr ''c1''] []),
                           (''hasNextPage'', JBool True),
                           (''total'', JNum 7)])]"

definition example_paged_api :: "jsval \<Rightarrow> HttpApi" where
  "example_paged_api response =
     example_api [(''http://api/v1/items?cursor=&limit=2&pageSize=2'', Inr response)]"

text \<open>
  A cursor codec for the examples: the offset in decimal after a fixed prefix, without
  the base-64 coding of the library.
\<close>

definition example_codec :: CursorCodec where
  "example_codec =
     \<lparr>offsetToCursor = (\<lambda>i. ''arrayconnection:'' @ show_int i),
      cursorToOffset =
        (\<lambda>s. if take 16 s = ''arrayconnection:'' \<and> drop 16 s \<noteq> []
                  \<and> (\<forall>c \<in> set (drop 16 s). c \<in> set ''0123456789'')
               then Some (int (index_value (drop 16 s))) else None)\<rparr>"

text \<open>A full collection of ten items, as the unpaged backend returns it.\<close>

definition example_items :: "jsval list" where
  "example_items =
     [JNum 10, JNum 11, JNum 12, JNum 13, JNum 14, JNum 15, JNum 16, JNum 17, JNum 18, JNum 19]"

definition example_unpaged_api :: "jsval \<Rightarrow> HttpApi" where
  "example_unpaged_api response = example_api [(''http://api/v1/items'', Inr response)]"

definition example_filtered_api :: HttpApi where
  "example_filtered_api =
     example_api [(''http://api/v1/items?status=open'', Inr (JArray example_items []))]"

text \<open>A codec that serialises the keys in sorted order, put into an instance.\<close>

definition sorting_codec :: QueryString where
  "sorting_codec =
     \<lparr>parse = querystring_parse,
      stringify = (\<lambda>obj. querystring_stringify (sort_key fst obj))\<rparr>"

definition sorting_api :: HttpApi where
  "sorting_api = (example_api [])\<lparr>qs := sorting_codec\<rparr>"

text \<open>
  A backend for two paths: the fetch of \<^verbatim>\<open>/a\<close> rejects with the given reason and the
  fetch of \<^verbatim>\<open>/b\<close> resolves with an object.
\<close>

definition example_two_paths_api :: "jsval \<Rightarrow> HttpApi" where
  "example_two_paths_api reason =
     example_api [(''http://api/v1/a'', Inl reason),
                  (''http://api/v1/b'', Inr (JObject [(''id'', JNum 2)]))]"

text \<open>
  For the bulk loader: an instance whose backend resolves every request with the same
  response, a key function that reads a string \<^verbatim>\<open>id\<close> (any other item gets the empty
  key), sixty keys \<^verbatim>\<open>k0\<close>, ..., \<^verbatim>\<open>k58\<close> and \<^verbatim>\<open>__proto__\<close>, and the names of
  the members of \<^verbatim>\<open>Array.prototype\<close> in ECMAScript 2023.
\<close>

definition example_bulk_api :: "jsval \<Rightarrow> HttpApi" where
  "example_bulk_api response =
     HttpApi_constructor
       \<lparr>apiBase = ''/v1'', origin = ''http://api'', externalOrigin = ''http://ext''\<rparr>
       (\<lambda>method url body. Inr response)
       (\<lambda>base path. base @ path)"

definition id_key :: "jsval \<Rightarrow> string" where
  "id_key item = (case member item ''id'' of JStr s \<Rightarrow> s | v \<Rightarrow> [])"

definition example_keys :: "string list" where
  "example_keys = map (\<lambda>i. CHR ''k'' # show_nat i) [0..<59] @ [''__proto__'']"

definition example_bulk_response :: jsval where
  "example_bulk_response =
     JArray [JObject [(''id'', JStr ''k7''), (''n'', JNum 1)],
             JNull,
             JObject [(''id'', JStr ''other'')],
             JObject [(''id'', JStr ''__proto__'')],
             JObject [(''id'', JStr ''k7''), (''n'', JNum 2)]] []"

definition example_array_members :: "string list" where
  "example_array_members =
     [''at'', ''concat'', ''constructor'', ''copyWithin'', ''entries'', ''every'', ''fill'',
      ''filter'', ''find'', ''findIndex'', ''findLast'', ''findLastIndex'', ''flat'',
      ''flatMap'', ''forEach'', ''includes'', ''indexOf'', ''join'', ''keys'',
      ''lastIndexOf'', ''map'', ''pop'', ''push'', ''reduce'', ''reduceRight'', ''reverse'',
      ''shift'', ''slice'', ''some'', ''sort'', ''splice'', ''toLocaleString'',
      ''toReversed'', ''toSorted'', ''toSpliced'', ''toString'', ''unshift'', ''values'',
      ''with'']"

section \<open>Facts about the loader\<close>

lemma rejections_resolved: "rejections order (map Inr vs) = []"
  by (simp add: rejections_def List.map_filter_def filter_empty_conv)

lemma values_resolved:
  "List.map_filter (\<lambda>p. case p of Inl e \<Rightarrow> None | Inr v \<Rightarrow> Some v) (map Inr vs) = vs"
  by (induction vs) (simp_all add: List.map_filter_def)

lemma promise_all_resolved: "promise_all order (map Inr vs) = Inr vs"
  by (simp add: promise_all_def rejections_resolved values_resolved)

text \<open>A load settles as its own fetch does, read through the catch and the Error test.\<close>

lemma load_eq:
  "load api key =
     (let v = catch_identity (request api GET (getUrl' api key None) JUndefined)
      in if is_error v then Inl v else Inr v)"
proof -
  let ?v = "catch_identity (request api GET (getUrl' api key None) JUndefined)"
  have "loader_batchFn api [] [key] = Inr [?v]"
    using promise_all_resolved [of "[]" "[?v]"] by (simp add: loader_batchFn_def)
  then show ?thesis
    by (simp add: load_def DataLoader_load_def DataLoader_window_def Let_def)
qed

lemma get_resolved:
  assumes "request api GET (getUrl api path args) JUndefined = Inr v" and "\<not> is_error v"
  shows "get api (makePath api path args) None = Inr v"
  using assms by (simp add: get_def load_eq makePath_def getUrl_def catch_identity_def)

lemma example_request:
  "request (example_api table) method url body =
     (case map_of table url of None \<Rightarrow> Inr JNull | Some r \<Rightarrow> r)"
  by (simp add: example_api_def HttpApi_constructor_def table_backend_def)

section \<open>The paged strategy\<close>

lemma connection_of_empty_page:
  "connection_of_page (JArray [] ps) after =
     Inr (Some \<lparr>edges = [],
                pageInfo = \<lparr>startCursor = JNull, endCursor = JNull,
                            hasPreviousPage = truthy after,
                            hasNextPage = member (get_own ps ''meta'') ''hasNextPage''\<rparr>,
                meta = filter (\<lambda>(k, v). k \<noteq> ''cursors'' \<and> k \<noteq> ''hasNextPage'')
                         (own_props (get_own ps ''meta''))\<rparr>)"
  by (simp add: connection_of_page_def boundary_cursor_def element_def enumerate_eq_zip Let_def)

text \<open>
  Claim C3. When the backend resolves the paged request with \<^verbatim>\<open>null\<close>,
  \<^verbatim>\<open>getPaginatedConnection\<close> resolves with \<^verbatim>\<open>null\<close>; when it resolves with an empty
  array that has a \<^verbatim>\<open>meta\<close>, the result is a connection without edges. The two
  results differ.
\<close>

theorem paged_null_is_not_an_empty_page:
  assumes "request api GET (getUrl api path (Some (paged_args args))) JUndefined = Inr JNull"
    and "request api' GET (getUrl api' path (Some (paged_args args))) JUndefined
           = Inr (JArray [] ps)"
    and "truthy (get_own ps ''meta'')"
  shows "getPaginatedConnection api path args = Inr None
         \<and> (\<exists>c. getPaginatedConnection api' path args = Inr (Some c) \<and> edges c = [])
         \<and> getPaginatedConnection api path args \<noteq> getPaginatedConnection api' path args"
proof -
  have 1: "getPaginatedConnection api path args = Inr None"
    using get_resolved [OF assms(1)] by (simp add: getPaginatedConnection_def)
  have 2: "\<exists>c. getPaginatedConnection api' path args = Inr (Some c) \<and> edges c = []"
    using get_resolved [OF assms(2)] assms(3)
    by (simp add: getPaginatedConnection_def connection_of_empty_page)
  from 1 2 show ?thesis by auto
qed

theorem paged_null_is_not_an_empty_page_witness:
  "request (example_api []) GET
     (getUrl (example_api []) ''/items'' (Some (paged_args [(''first'', JNum 2)]))) JUndefined
     = Inr JNull
   \<and> getPaginatedConnection (example_api []) ''/items'' [(''first'', JNum 2)] = Inr None
   \<and> (\<exists>c. getPaginatedConnection
            (example_api
               [(''http://api/v1/items?cursor=&limit=2&pageSize=2'',
                 Inr (JArray [] [(''meta'', JObject [(''cursors'', JArray [] []),
                                                     (''hasNextPage'', JBool False)])]))])
            ''/items'' [(''first'', JNum 2)] = Inr (Some c)
          \<and> edges c = [])"
proof -
  have u: "getUrl (example_api t) ''/items'' (Some (paged_args [(''first'', JNum 2)]))
             = ''http://api/v1/items?cursor=&limit=2&pageSize=2''" for t
    by code_simp
  show ?thesis
    using paged_null_is_not_an_empty_page
      [of "example_api []" "''/items''" "[(''first'', JNum 2)]"
          "example_api
             [(''http://api/v1/items?cursor=&limit=2&pageSize=2'',
               Inr (JArray [] [(''meta'', JObject [(''cursors'', JArray [] []),
                                                   (''hasNextPage'', JBool False)])]))]"
          "[(''meta'', JObject [(''cursors'', JArray [] []), (''hasNextPage'', JBool False)])]"]
    by (simp add: u example_request get_own_def)
qed

lemma edges_of_cursor_array:
  "map_result (make_edge (JArray cs cps)) (enumerate n xs) =
     Inr (map (\<lambda>(i, item). \<lparr>node = item, cursor = element cs (int i)\<rparr>) (enumerate n xs))"
  by (induction xs arbitrary: n) (simp_all add: make_edge_def)

lemma connection_of_page_Some:
  assumes "connection_of_page (JArray xs ps) after = Inr (Some c)"
  shows "boundary_cursor xs (member (get_own ps ''meta'') ''cursors'') 0
           = Inr (startCursor (pageInfo c))"
    and "boundary_cursor xs (member (get_own ps ''meta'') ''cursors'') (int (length xs) - 1)
           = Inr (endCursor (pageInfo c))"
  using assms
  by (auto simp: connection_of_page_def Let_def split: sum.splits)

lemma getPaginatedConnection_array:
  assumes "request api GET (getUrl api path (Some (paged_args args))) JUndefined
             = Inr (JArray xs ps)"
  shows "getPaginatedConnection api path args =
           (if truthy (get_own ps ''meta'')
            then connection_of_page (JArray xs ps) (get_own args ''after'')
            else Inl InvariantViolation)"
  using get_resolved [OF assms] by (simp add: getPaginatedConnection_def)

lemma connection_of_cursor_page:
  assumes "get_own ps ''meta'' = JObject m"
    and "get_own m ''cursors'' = JArray cs cps"
  shows "connection_of_page (JArray xs ps) after =
           Inr (Some
             \<lparr>edges = map (\<lambda>(i, item). \<lparr>node = item, cursor = element cs (int i)\<rparr>)
                          (enumerate 0 xs),
              pageInfo =
                \<lparr>startCursor = (if truthy (element xs 0) then element cs 0 else JNull),
                 endCursor = (if truthy (element xs (int (length xs) - 1))
                              then element cs (int (length xs) - 1) else JNull),
                 hasPreviousPage = truthy after,
                 hasNextPage = get_own m ''hasNextPage''\<rparr>,
              meta = filter (\<lambda>(k, v). k \<noteq> ''cursors'' \<and> k \<noteq> ''hasNextPage'') m\<rparr>)"
  using assms
  by (simp add: connection_of_page_def edges_of_cursor_array boundary_cursor_def Let_def)

lemma example_page_connection:
  "connection_of_page (example_page [a, b]) after =
     Inr (Some
       \<lparr>edges = [\<lparr>node = a, cursor = JStr ''c0''\<rparr>, \<lparr>node = b, cursor = JStr ''c1''\<rparr>],
        pageInfo = \<lparr>startCursor = (if truthy a then JStr ''c0'' else JNull),
                    endCursor = (if truthy b then JStr ''c1'' else JNull),
                    hasPreviousPage = truthy after, hasNextPage = JBool True\<rparr>,
        meta = [(''total'', JNum 7)]\<rparr>)"
  unfolding example_page_def
  by (subst connection_of_cursor_page
        [of _ "[(''cursors'', JArray [JStr ''c0'', JStr ''c1''] []),
                (''hasNextPage'', JBool True), (''total'', JNum 7)]"
            "[JStr ''c0'', JStr ''c1'']" "[]"])
     (simp_all add: get_own_def element_def enumerate_eq_zip)

text \<open>
  Claim C1, as the code has it. For a backend result that is an array with a \<^verbatim>\<open>meta\<close>
  object holding an array of cursors, \<^verbatim>\<open>getPaginatedConnection\<close> resolves with a
  connection whose edges pair item \<open>i\<close> with \<^verbatim>\<open>cursors[i]\<close> in item order
  (\<^verbatim>\<open>undefined\<close> where the cursors run out), whose \<^verbatim>\<open>hasPreviousPage\<close> is the
  truthiness of \<^verbatim>\<open>after\<close>, whose \<^verbatim>\<open>hasNextPage\<close> is the backend's value as it is,
  and whose \<^verbatim>\<open>startCursor\<close> and \<^verbatim>\<open>endCursor\<close> are the cursors at the first and
  last index when the item there is truthy and \<^verbatim>\<open>null\<close> when it is not, which
  covers the empty page. The other fields of \<^verbatim>\<open>meta\<close> pass through.
\<close>

theorem paged_connection_from_page:
  assumes "request api GET (getUrl api path (Some (paged_args args))) JUndefined
             = Inr (JArray xs ps)"
    and "get_own ps ''meta'' = JObject m"
    and "get_own m ''cursors'' = JArray cs cps"
  shows "getPaginatedConnection api path args =
           Inr (Some
             \<lparr>edges = map (\<lambda>(i, item). \<lparr>node = item, cursor = element cs (int i)\<rparr>)
                          (enumerate 0 xs),
              pageInfo =
                \<lparr>startCursor = (if truthy (element xs 0) then element cs 0 else JNull),
                 endCursor = (if truthy (element xs (int (length xs) - 1))
                              then element cs (int (length xs) - 1) else JNull),
                 hasPreviousPage = truthy (get_own args ''after''),
                 hasNextPage = get_own m ''hasNextPage''\<rparr>,
              meta = filter (\<lambda>(k, v). k \<noteq> ''cursors'' \<and> k \<noteq> ''hasNextPage'') m\<rparr>)"
  using assms(2) connection_of_cursor_page [OF assms(2,3)]
  by (simp add: getPaginatedConnection_array [OF assms(1)])

text \<open>
  Claim C9. Whenever \<^verbatim>\<open>getPaginatedConnection\<close> resolves with a connection for an array
  page, a falsy first item makes \<^verbatim>\<open>startCursor\<close> \<^verbatim>\<open>null\<close> and a falsy last item
  makes \<^verbatim>\<open>endCursor\<close> \<^verbatim>\<open>null\<close>, whatever the cursors are and also on a page that
  is not empty.
\<close>

theorem paged_boundary_item_falsy:
  assumes "request api GET (getUrl api path (Some (paged_args args))) JUndefined
             = Inr (JArray xs ps)"
    and "getPaginatedConnection api path args = Inr (Some c)"
  shows "(\<not> truthy (element xs 0) \<longrightarrow> startCursor (pageInfo c) = JNull)
         \<and> (\<not> truthy (element xs (int (length xs) - 1)) \<longrightarrow> endCursor (pageInfo c) = JNull)"
proof -
  have "connection_of_page (JArray xs ps) (get_own args ''after'') = Inr (Some c)"
    using assms(2) by (simp add: getPaginatedConnection_array [OF assms(1)] split: if_splits)
  from connection_of_page_Some [OF this] show ?thesis
    by (simp add: boundary_cursor_def split: if_splits)
qed


lemma example_paged_url:
  "getUrl (example_api t) ''/items'' (Some (paged_args [(''first'', JNum 2)]))
     = ''http://api/v1/items?cursor=&limit=2&pageSize=2''"
  by code_simp

lemma example_paged_request:
  "request (example_paged_api response) GET
     (getUrl (example_paged_api response) ''/items'' (Some (paged_args [(''first'', JNum 2)])))
     JUndefined = Inr response"
  by (simp add: example_paged_api_def example_paged_url example_request)

lemma example_paged_result:
  "getPaginatedConnection (example_paged_api (example_page [a, b])) ''/items''
     [(''first'', JNum 2)] =
     Inr (Some
       \<lparr>edges = [\<lparr>node = a, cursor = JStr ''c0''\<rparr>, \<lparr>node = b, cursor = JStr ''c1''\<rparr>],
        pageInfo = \<lparr>startCursor = (if truthy a then JStr ''c0'' else JNull),
                    endCursor = (if truthy b then JStr ''c1'' else JNull),
                    hasPreviousPage = False, hasNextPage = JBool True\<rparr>,
        meta = [(''total'', JNum 7)]\<rparr>)"
proof -
  have "getPaginatedConnection (example_paged_api (example_page [a, b])) ''/items''
          [(''first'', JNum 2)]
        = connection_of_page (example_page [a, b]) (get_own [(''first'', JNum 2)] ''after'')"
    using getPaginatedConnection_array
            [OF example_paged_request [of "example_page [a, b]", unfolded example_page_def]]
    by (simp add: example_page_def get_own_def)
  then show ?thesis by (simp add: example_page_connection get_own_def)
qed

theorem paged_connection_from_page_witness:
  "request (example_paged_api (example_page [JObject [(''id'', JNum 1)], JObject [(''id'', JNum 2)]]))
     GET (getUrl (example_paged_api (example_page [JObject [(''id'', JNum 1)], JObject [(''id'', JNum 2)]]))
            ''/items'' (Some (paged_args [(''first'', JNum 2)])))
     JUndefined
     = Inr (example_page [JObject [(''id'', JNum 1)], JObject [(''id'', JNum 2)]])
   \<and> getPaginatedConnection
       (example_paged_api (example_page [JObject [(''id'', JNum 1)], JObject [(''id'', JNum 2)]]))
       ''/items'' [(''first'', JNum 2)]
     = Inr (Some
         \<lparr>edges = [\<lparr>node = JObject [(''id'', JNum 1)], cursor = JStr ''c0''\<rparr>,
                   \<lparr>node = JObject [(''id'', JNum 2)], cursor = JStr ''c1''\<rparr>],
          pageInfo = \<lparr>startCursor = JStr ''c0'', endCursor = JStr ''c1'',
                      hasPreviousPage = False, hasNextPage = JBool True\<rparr>,
          meta = [(''total'', JNum 7)]\<rparr>)"
  using paged_connection_from_page
    [OF example_paged_request
          [of "example_page [JObject [(''id'', JNum 1)], JObject [(''id'', JNum 2)]]",
           unfolded example_page_def],
     of "[(''cursors'', JArray [JStr ''c0'', JStr ''c1''] []),
          (''hasNextPage'', JBool True), (''total'', JNum 7)]"
        "[JStr ''c0'', JStr ''c1'']" "[]"]
  by (simp add: example_paged_request example_page_def get_own_def element_def enumerate_eq_zip)

text \<open>
  The claim as the specification words it (null exactly for an empty page) fails on a page
  whose first item is the number 0: the page is not empty, its first cursor is
  \<^verbatim>\<open>c0\<close>, and \<^verbatim>\<open>startCursor\<close> is \<^verbatim>\<open>null\<close>.
\<close>

theorem paged_start_cursor_counterexample:
  "getPaginatedConnection (example_paged_api (example_page [JNum 0, JNum 5]))
     ''/items'' [(''first'', JNum 2)]
     = Inr (Some
         \<lparr>edges = [\<lparr>node = JNum 0, cursor = JStr ''c0''\<rparr>,
                   \<lparr>node = JNum 5, cursor = JStr ''c1''\<rparr>],
          pageInfo = \<lparr>startCursor = JNull, endCursor = JStr ''c1'',
                      hasPreviousPage = False, hasNextPage = JBool True\<rparr>,
          meta = [(''total'', JNum 7)]\<rparr>)
   \<and> getPaginatedConnection (example_paged_api (example_page [JNum 0, JNum 5]))
       ''/items'' [(''first'', JNum 2)]
     \<noteq> Inr (Some
         \<lparr>edges = [\<lparr>node = JNum 0, cursor = JStr ''c0''\<rparr>,
                   \<lparr>node = JNum 5, cursor = JStr ''c1''\<rparr>],
          pageInfo = \<lparr>startCursor = JStr ''c0'', endCursor = JStr ''c1'',
                      hasPreviousPage = False, hasNextPage = JBool True\<rparr>,
          meta = [(''total'', JNum 7)]\<rparr>)"
  by (simp add: example_paged_result)

theorem paged_boundary_item_falsy_witness:
  "request (example_paged_api (example_page [JNull, JStr []])) GET
     (getUrl (example_paged_api (example_page [JNull, JStr []])) ''/items''
        (Some (paged_args [(''first'', JNum 2)])))
     JUndefined = Inr (example_page [JNull, JStr []])
   \<and> getPaginatedConnection (example_paged_api (example_page [JNull, JStr []]))
       ''/items'' [(''first'', JNum 2)]
     = Inr (Some
         \<lparr>edges = [\<lparr>node = JNull, cursor = JStr ''c0''\<rparr>,
                   \<lparr>node = JStr [], cursor = JStr ''c1''\<rparr>],
          pageInfo = \<lparr>startCursor = JNull, endCursor = JNull,
                      hasPreviousPage = False, hasNextPage = JBool True\<rparr>,
          meta = [(''total'', JNum 7)]\<rparr>)"
  using paged_boundary_item_falsy
      [OF example_paged_request [of "example_page [JNull, JStr []]", unfolded example_page_def]
          example_paged_result [of JNull "JStr []", unfolded example_page_def]]
  by (simp add: example_paged_request example_paged_result)

section \<open>The single-key loader in a batch window\<close>

lemma loader_batchFn_resolves:
  "loader_batchFn api order paths =
     Inr (map (\<lambda>path. catch_identity (request api GET (getUrl' api path None) JUndefined)) paths)"
proof -
  have "map (\<lambda>path. Inr (catch_identity (request api GET (getUrl' api path None) JUndefined))
                  :: jsval + jsval) paths
        = map Inr (map (\<lambda>path. catch_identity (request api GET (getUrl' api path None) JUndefined))
                       paths)"
    by simp
  then show ?thesis
    unfolding loader_batchFn_def by (simp only: promise_all_resolved)
qed

lemma loader_window:
  "DataLoader_window (loader_batchFn api order) paths =
     map (\<lambda>path. let v = catch_identity (request api GET (getUrl' api path None) JUndefined)
                  in if is_error v then Inl v else Inr v) paths"
  by (simp add: DataLoader_window_def loader_batchFn_resolves Let_def)

text \<open>
  The outcome of a load does not depend on the window it is issued in, which is why
  \<open>load\<close> may be read in a window of its own.
\<close>

lemma load_in_window:
  "k < length paths \<Longrightarrow>
     DataLoader_load (loader_batchFn api order) paths k = load api (paths ! k)"
  by (simp add: DataLoader_load_def loader_window load_eq)

text \<open>
  Claim C8, as the code has it. In a batch window of the single-key loader, a path whose
  fetch rejects with an instance of Error rejects with that error, a path whose fetch
  resolves with a value that is not an Error resolves with that value, and the outcome
  of every path of the window is determined by its own fetch alone, whatever the other
  fetches do and in whatever order they settle.
\<close>

theorem loader_failure_isolation:
  assumes "i < length paths" and "j < length paths"
    and "request api GET (getUrl' api (paths ! i) None) JUndefined = Inl e" and "is_error e"
    and "request api GET (getUrl' api (paths ! j) None) JUndefined = Inr v" and "\<not> is_error v"
  shows "DataLoader_load (loader_batchFn api order) paths i = Inl e
         \<and> DataLoader_load (loader_batchFn api order) paths j = Inr v
         \<and> (\<forall>k < length paths.
               DataLoader_load (loader_batchFn api order) paths k =
                 (let w = catch_identity (request api GET (getUrl' api (paths ! k) None) JUndefined)
                  in if is_error w then Inl w else Inr w))"
  using assms
  by (simp add: DataLoader_load_def loader_window catch_identity_def)

lemma example_two_paths_request:
  "request (example_two_paths_api reason) GET
     (getUrl' (example_two_paths_api reason) ''/a'' None) JUndefined = Inl reason"
  "request (example_two_paths_api reason) GET
     (getUrl' (example_two_paths_api reason) ''/b'' None) JUndefined
     = Inr (JObject [(''id'', JNum 2)])"
  by (simp_all add: example_two_paths_api_def getUrl'_def example_api_def
      HttpApi_constructor_def table_backend_def)

theorem loader_failure_isolation_witness:
  "request (example_two_paths_api (JError ''not found'')) GET
     (getUrl' (example_two_paths_api (JError ''not found'')) ([''/a'', ''/b''] ! 0) None) JUndefined
     = Inl (JError ''not found'')
   \<and> is_error (JError ''not found'')
   \<and> DataLoader_load (loader_batchFn (example_two_paths_api (JError ''not found'')) [1, 0])
        [''/a'', ''/b''] 0 = Inl (JError ''not found'')
   \<and> DataLoader_load (loader_batchFn (example_two_paths_api (JError ''not found'')) [1, 0])
        [''/a'', ''/b''] 1 = Inr (JObject [(''id'', JNum 2)])"
  using loader_failure_isolation
    [of 0 "[''/a'', ''/b'']" 1 "example_two_paths_api (JError ''not found'')"
        "JError ''not found''" "JObject [(''id'', JNum 2)]" "[1, 0]"]
  by (simp add: example_two_paths_request)

text \<open>
  The claim as worded (every failing path rejects with its own failure) fails for a fetch
  that rejects with a reason that is not an instance of Error: \<^verbatim>\<open>.catch(e => e)\<close>
  turns the reason into a value, and DataLoader resolves the load with it.
\<close>

theorem loader_non_error_rejection_counterexample:
  "request (example_two_paths_api (JStr ''boom'')) GET
     (getUrl' (example_two_paths_api (JStr ''boom'')) ''/a'' None) JUndefined
     = Inl (JStr ''boom'')
   \<and> DataLoader_load (loader_batchFn (example_two_paths_api (JStr ''boom'')) [])
        [''/a'', ''/b''] 0 = Inr (JStr ''boom'')
   \<and> DataLoader_load (loader_batchFn (example_two_paths_api (JStr ''boom'')) [])
        [''/a'', ''/b''] 0 \<noteq> Inl (JStr ''boom'')"
  by (simp add: DataLoader_load_def loader_window catch_identity_def example_two_paths_request)


section \<open>The path builder\<close>

lemma map_of_replace_prop:
  "map_of obj k \<noteq> None \<Longrightarrow> map_of (replace_prop obj k v) = (map_of obj)(k \<mapsto> v)"
  by (induction obj) (auto simp: fun_eq_iff)

lemma keys_replace_prop: "map fst (replace_prop obj k v) = map fst obj"
  by (induction obj) auto

lemma map_of_insert_index: "map_of (insert_index k v obj) = (map_of obj)(k \<mapsto> v)"
  by (induction obj) (auto simp: fun_eq_iff)

lemma set_keys_insert_index: "fst ` set (insert_index k v obj) = insert k (fst ` set obj)"
  by (induction obj) auto

lemma distinct_insert_index:
  "k \<notin> set (map fst obj) \<Longrightarrow> distinct (map fst obj) \<Longrightarrow>
     distinct (map fst (insert_index k v obj))"
proof (induction obj)
  case Nil
  then show ?case by simp
next
  case (Cons p obj)
  then have "distinct (map fst (insert_index k v obj))" by simp
  moreover have "fst p \<notin> fst ` set (insert_index k v obj)"
    using Cons.prems by (auto simp: set_keys_insert_index)
  ultimately show ?case using Cons.prems by auto
qed

lemma named_keys_insert_index:
  "is_index k \<Longrightarrow> named_keys (insert_index k v obj) = named_keys obj"
  by (induction obj) (auto simp: named_keys_def)

lemma index_rank_less_linear:
  "k \<noteq> k' \<Longrightarrow> index_rank k < index_rank k' \<or> index_rank k' < index_rank k"
  by (auto simp: index_rank_def less_prod_def)

lemma ordered_insert_index:
  assumes "is_index k" and "k \<notin> set (map fst obj)" and "js_ordered obj"
  shows "js_ordered (insert_index k v obj)"
  using assms(2,3)
proof (induction obj)
  case Nil
  then show ?case by (simp add: js_ordered_def)
next
  case (Cons p obj)
  from Cons.prems have kp: "k \<noteq> fst p" and o: "js_ordered obj"
    and before: "\<forall>q \<in> set (map fst obj). key_before (fst p) q"
    by (auto simp: js_ordered_def)
  show ?case
  proof (cases "is_index (fst p) \<and> index_rank (fst p) < index_rank k")
    case True
    have IH: "js_ordered (insert_index k v obj)" using Cons o by simp
    have "key_before (fst p) k" using True assms(1) by (simp add: key_before_def)
    with before have "\<forall>q \<in> fst ` set (insert_index k v obj). key_before (fst p) q"
      by (auto simp: set_keys_insert_index)
    with IH True show ?thesis by (simp add: js_ordered_def)
  next
    case False
    have kb: "key_before k (fst p)"
    proof (cases "is_index (fst p)")
      case True
      with False have "\<not> index_rank (fst p) < index_rank k" by simp
      with kp have "index_rank k < index_rank (fst p)"
        using index_rank_less_linear [of k "fst p"] by blast
      with assms(1) show ?thesis by (simp add: key_before_def)
    next
      case False
      with assms(1) show ?thesis by (simp add: key_before_def)
    qed
    have "key_before k q" if "q \<in> set (map fst obj)" for q
    proof -
      from before that have pq: "key_before (fst p) q" by blast
      show ?thesis
      proof (cases "is_index q")
        case False
        with assms(1) show ?thesis by (simp add: key_before_def)
      next
        case True
        with pq have ip: "is_index (fst p)" and "index_rank (fst p) < index_rank q"
          by (auto simp: key_before_def split: if_splits)
        moreover from kb ip assms(1) have "index_rank k < index_rank (fst p)"
          by (simp add: key_before_def)
        ultimately have "index_rank k < index_rank q" by (rule_tac less_trans)
        with assms(1) show ?thesis by (simp add: key_before_def)
      qed
    qed
    with kb Cons.prems False show ?thesis by (auto simp: js_ordered_def)
  qed
qed


lemma map_of_set_prop: "map_of (set_prop obj k v) = (map_of obj)(k \<mapsto> v)"
proof (cases "map_of obj k")
  case None
  then have "k \<notin> dom (map_of obj)" by auto
  then have "map_of (obj @ [(k, v)]) = (map_of obj)(k \<mapsto> v)"
    by (auto simp: fun_eq_iff map_add_def dom_def split: option.splits)
  with None show ?thesis by (simp add: set_prop_def map_of_insert_index)
next
  case (Some old)
  then show ?thesis by (simp add: set_prop_def map_of_replace_prop)
qed

lemma set_keys_set_prop: "fst ` set (set_prop obj k v) = insert k (fst ` set obj)"
proof (cases "map_of obj k")
  case None
  then show ?thesis by (simp add: set_prop_def set_keys_insert_index)
next
  case (Some old)
  then have "k \<in> fst ` set obj" by (metis map_of_eq_None_iff option.distinct(1))
  moreover have "fst ` set (replace_prop obj k v) = fst ` set obj"
    using keys_replace_prop [of obj k v] by (metis set_map)
  ultimately show ?thesis using Some by (auto simp: set_prop_def)
qed

lemma distinct_set_prop:
  "distinct (map fst obj) \<Longrightarrow> distinct (map fst (set_prop obj k v))"
proof (cases "map_of obj k")
  case None
  assume d: "distinct (map fst obj)"
  from None have "k \<notin> set (map fst obj)" by (simp add: map_of_eq_None_iff)
  with None d show ?thesis by (simp add: set_prop_def distinct_insert_index)
next
  case (Some old)
  assume "distinct (map fst obj)"
  with Some show ?thesis by (simp add: set_prop_def keys_replace_prop)
qed

lemma ordered_set_prop: "js_ordered obj \<Longrightarrow> js_ordered (set_prop obj k v)"
proof (cases "map_of obj k")
  case None
  assume o: "js_ordered obj"
  from None have nk: "k \<notin> set (map fst obj)" by (simp add: map_of_eq_None_iff)
  show ?thesis
  proof (cases "is_index k")
    case True
    with None o nk show ?thesis by (simp add: set_prop_def ordered_insert_index)
  next
    case False
    then have "\<forall>q \<in> set (map fst obj). key_before q k"
      by (simp add: key_before_def)
    with o have "js_ordered (obj @ [(k, v)])"
      by (simp add: js_ordered_def sorted_wrt_append)
    with None False show ?thesis by (simp add: set_prop_def)
  qed
next
  case (Some old)
  assume "js_ordered obj"
  with Some show ?thesis by (simp add: set_prop_def js_ordered_def keys_replace_prop)
qed

lemma named_keys_set_prop:
  "named_keys (set_prop obj k v) =
     (if is_index k \<or> k \<in> fst ` set obj then named_keys obj else named_keys obj @ [k])"
proof (cases "map_of obj k")
  case None
  then have nk: "k \<notin> fst ` set obj" by (simp add: map_of_eq_None_iff)
  show ?thesis
  proof (cases "is_index k")
    case True
    with None show ?thesis by (simp add: set_prop_def named_keys_insert_index)
  next
    case False
    with None nk show ?thesis by (simp add: set_prop_def named_keys_def)
  qed
next
  case (Some old)
  then have "k \<in> fst ` set obj" by (metis map_of_eq_None_iff option.distinct(1))
  with Some show ?thesis by (simp add: set_prop_def named_keys_def keys_replace_prop)
qed

lemma spread_Cons: "spread base ((k, v) # ext) = spread (set_prop base k v) ext"
  by (simp add: spread_def)

lemma spread_Nil: "spread base [] = base"
  by (simp add: spread_def)

lemma distinct_spread:
  "distinct (map fst base) \<Longrightarrow> distinct (map fst (spread base ext))"
proof (induction ext arbitrary: base)
  case Nil
  then show ?case by (simp add: spread_Nil)
next
  case (Cons p ext)
  obtain k v where p: "p = (k, v)" by (cases p)
  from Cons show ?case by (simp add: p spread_Cons distinct_set_prop)
qed

lemma ordered_spread: "js_ordered base \<Longrightarrow> js_ordered (spread base ext)"
proof (induction ext arbitrary: base)
  case Nil
  then show ?case by (simp add: spread_Nil)
next
  case (Cons p ext)
  obtain k v where p: "p = (k, v)" by (cases p)
  from Cons show ?case by (simp add: p spread_Cons ordered_set_prop)
qed

lemma map_of_spread:
  "distinct (map fst ext) \<Longrightarrow> map_of (spread base ext) = map_of base ++ map_of ext"
proof (induction ext arbitrary: base)
  case Nil
  then show ?case by (simp add: spread_Nil)
next
  case (Cons p ext)
  obtain k v where p: "p = (k, v)" by (cases p)
  have k: "k \<notin> dom (map_of ext)" using Cons.prems p by (simp add: dom_map_of_conv_image_fst)
  have "map_of (spread base (p # ext)) = (map_of base)(k \<mapsto> v) ++ map_of ext"
    using Cons by (simp add: p spread_Cons map_of_set_prop)
  also have "\<dots> = (map_of base ++ map_of ext)(k \<mapsto> v)"
    by (rule map_add_upd_left [OF k])
  also have "\<dots> = map_of base ++ map_of (p # ext)"
    by (simp only: p map_of.simps map_add_upd fst_conv snd_conv)
  finally show ?case .
qed

lemma named_keys_spread:
  "distinct (map fst ext) \<Longrightarrow>
     named_keys (spread base ext) =
       named_keys base @ filter (\<lambda>k. k \<notin> fst ` set base) (named_keys ext)"
proof (induction ext arbitrary: base)
  case Nil
  then show ?case by (simp add: spread_Nil named_keys_def)
next
  case (Cons p ext)
  obtain k v where p: "p = (k, v)" by (cases p)
  from Cons.prems p have d: "distinct (map fst ext)" and k: "k \<notin> fst ` set ext" by simp_all
  have "k \<notin> set (named_keys ext)" using k by (auto simp: named_keys_def)
  then have f: "filter (\<lambda>k'. k' \<notin> fst ` set (set_prop base k v)) (named_keys ext)
             = filter (\<lambda>k'. k' \<notin> fst ` set base) (named_keys ext)"
    by (intro filter_cong refl) (auto simp: set_keys_set_prop)
  have step: "named_keys (spread base (p # ext))
          = named_keys (set_prop base k v)
            @ filter (\<lambda>k'. k' \<notin> fst ` set base) (named_keys ext)"
    using Cons.IH [OF d, of "set_prop base k v"] by (simp only: p spread_Cons f)
  have ext: "named_keys (p # ext) = (if is_index k then named_keys ext else k # named_keys ext)"
    by (simp add: p named_keys_def)
  show ?case
    unfolding step ext named_keys_set_prop by auto
qed


lemma ordered_keys_split:
  "sorted_wrt key_before ks \<Longrightarrow>
     ks = filter is_index ks @ filter (\<lambda>k. \<not> is_index k) ks"
proof (induction ks)
  case Nil
  then show ?case by simp
next
  case (Cons k ks)
  then have IH: "ks = filter is_index ks @ filter (\<lambda>k. \<not> is_index k) ks"
    and before: "\<forall>q \<in> set ks. key_before k q" by simp_all
  show ?case
  proof (cases "is_index k")
    case True
    with IH show ?thesis by simp
  next
    case False
    with before have "\<forall>q \<in> set ks. \<not> is_index q" by (simp add: key_before_def)
    then have "filter is_index ks = []" and "filter (\<lambda>k. \<not> is_index k) ks = ks"
      by (simp_all add: filter_empty_conv)
    with False show ?thesis by simp
  qed
qed

lemma index_keys_sorted:
  assumes "sorted_wrt key_before ks"
  shows "sorted (map index_rank (filter is_index ks))"
    and "distinct (map index_rank (filter is_index ks))"
proof -
  have "sorted_wrt key_before (filter is_index ks)"
    using assms by (rule sorted_wrt_filter)
  then have "sorted_wrt (\<lambda>a b. index_rank a < index_rank b) (filter is_index ks)"
    by (rule sorted_wrt_mono_rel [rotated]) (simp add: key_before_def)
  then have "sorted_wrt (<) (map index_rank (filter is_index ks))"
    by (simp add: sorted_wrt_map)
  then show "sorted (map index_rank (filter is_index ks))"
    and "distinct (map index_rank (filter is_index ks))"
    by (simp_all add: strict_sorted_iff)
qed

lemma index_keys_unique:
  assumes "sorted_wrt key_before ks" and "sorted_wrt key_before ks'" and "set ks = set ks'"
  shows "filter is_index ks = filter is_index ks'"
proof (rule map_sorted_distinct_set_unique [where f = index_rank])
  show "inj_on index_rank (set (filter is_index ks) \<union> set (filter is_index ks'))"
    by (rule inj_onI) (simp add: index_rank_def)
  show "set (filter is_index ks) = set (filter is_index ks')" using assms(3) by simp
qed (simp_all add: index_keys_sorted assms(1,2))

lemma entries_of_keys:
  "map fst xs = map fst ys \<Longrightarrow> distinct (map fst xs) \<Longrightarrow> map_of xs = map_of ys \<Longrightarrow> xs = ys"
proof (induction xs arbitrary: ys)
  case Nil
  then show ?case by simp
next
  case (Cons p xs)
  from Cons.prems(1) obtain q ys' where ys: "ys = q # ys'" and k: "fst p = fst q"
    and ks: "map fst xs = map fst ys'" by (cases ys) auto
  from Cons.prems(3) have "map_of (p # xs) (fst p) = map_of ys (fst p)"
    by (rule arg_cong [where f = "\<lambda>m. m (fst p)"])
  then have v: "snd p = snd q" by (simp add: ys k)
  have "map_of xs = map_of ys'"
  proof
    fix k'
    show "map_of xs k' = map_of ys' k'"
    proof (cases "k' = fst p")
      case True
      with Cons.prems(2) ks have "map_of xs k' = None" "map_of ys' k' = None"
        by (simp_all add: map_of_eq_None_iff) (metis image_set)+
      then show ?thesis by simp
    next
      case False
      from Cons.prems(3) have "map_of (p # xs) k' = map_of ys k'"
        by (rule arg_cong [where f = "\<lambda>m. m k'"])
      with False show ?thesis by (simp add: ys k [symmetric])
    qed
  qed
  with Cons.IH [OF ks] Cons.prems(2) have "xs = ys'" by simp
  with k v show ?case by (simp add: ys prod_eq_iff)
qed

lemma object_unique:
  assumes "distinct (map fst xs)" and "js_ordered xs" and "js_ordered ys"
    and "map_of xs = map_of ys" and "named_keys xs = named_keys ys"
  shows "xs = ys"
proof -
  have "dom (map_of xs) = dom (map_of ys)" using assms(4) by simp
  then have "set (map fst xs) = set (map fst ys)"
    by (simp add: dom_map_of_conv_image_fst)
  then have "filter is_index (map fst xs) = filter is_index (map fst ys)"
    using assms(2,3) by (intro index_keys_unique) (simp_all add: js_ordered_def)
  moreover have "map fst xs = filter is_index (map fst xs) @ named_keys xs"
    and "map fst ys = filter is_index (map fst ys) @ named_keys ys"
    using assms(2,3) ordered_keys_split by (simp_all add: js_ordered_def named_keys_def)
  ultimately have "map fst xs = map fst ys" using assms(5) by simp
  then show ?thesis using assms(1,4) by (rule entries_of_keys)
qed

lemma same_entries_spread:
  assumes "same_entries a b" and "named_keys a = named_keys b"
    and "distinct (map fst base)" and "js_ordered base"
  shows "spread base a = spread base b"
proof (rule object_unique)
  from assms(1) have da: "distinct (map fst a)" and db: "distinct (map fst b)"
    and eq: "set a = set b" by (simp_all add: same_entries_def)
  have "map_of a = map_of b" using map_of_inject_set [OF da db] eq by simp
  then show "map_of (spread base a) = map_of (spread base b)"
    by (simp add: map_of_spread da db)
  show "named_keys (spread base a) = named_keys (spread base b)"
    by (simp add: named_keys_spread da db assms(2))
  show "distinct (map fst (spread base a))" using assms(3) by (rule distinct_spread)
  show "js_ordered (spread base a)" "js_ordered (spread base b)"
    using assms(4) by (simp_all add: ordered_spread)
qed

lemma same_entries_spread_set:
  assumes "same_entries a b" and "distinct (map fst base)"
  shows "same_entries (spread base a) (spread base b)"
proof -
  from assms(1) have da: "distinct (map fst a)" and db: "distinct (map fst b)"
    and eq: "set a = set b" by (simp_all add: same_entries_def)
  have "map_of a = map_of b" using map_of_inject_set [OF da db] eq by simp
  then have "map_of (spread base a) = map_of (spread base b)"
    by (simp add: map_of_spread da db)
  moreover have 1: "distinct (map fst (spread base a))" and 2: "distinct (map fst (spread base b))"
    using assms(2) by (simp_all add: distinct_spread)
  ultimately have "set (spread base a) = set (spread base b)"
    using map_of_inject_set [OF 1 2] by simp
  with 1 2 show ?thesis by (simp add: same_entries_def)
qed

text \<open>
  Claim C2, as the code has it. \<^verbatim>\<open>makePath\<close> merges the arguments over the query of
  the path and hands the merged object to the codec; it adds no ordering of its own
  beyond the enumeration order of objects. Two argument objects with the same key-value
  pairs give the same path, for every path, whenever their keys that are not array
  indices are supplied in the same order, or the codec of the instance serialises
  independently of the key order.
\<close>

theorem makePath_order_independent:
  assumes "same_entries a b"
    and "named_keys a = named_keys b \<or> order_insensitive (qs api)"
  shows "makePath api path (Some a) = makePath api path (Some b)"
proof -
  have "stringify (qs api) (spread (spread [] query) a)
          = stringify (qs api) (spread (spread [] query) b)" for query
  proof -
    have d: "distinct (map fst (spread [] query))" by (rule distinct_spread) simp
    have o: "js_ordered (spread [] query)" by (rule ordered_spread) (simp add: js_ordered_def)
    from assms(2) show ?thesis
    proof
      assume "named_keys a = named_keys b"
      from same_entries_spread [OF assms(1) this d o] show ?thesis by simp
    next
      assume "order_insensitive (qs api)"
      with same_entries_spread_set [OF assms(1) d] show ?thesis
        by (simp add: order_insensitive_def)
    qed
  qed
  then show ?thesis by (simp add: makePath_def)
qed

lemma sorting_codec_order_insensitive: "order_insensitive sorting_codec"
proof -
  have "sort_key fst a = sort_key fst b" if "same_entries a b" for a b :: jsobj
  proof (rule map_sorted_distinct_set_unique [where f = fst])
    from that have da: "distinct (map fst a)" and db: "distinct (map fst b)"
      and eq: "set a = set b" by (simp_all add: same_entries_def)
    show "inj_on fst (set (sort_key fst a) \<union> set (sort_key fst b))"
      using da eq by (simp add: distinct_map)
    show "sorted (map fst (sort_key fst a))" "sorted (map fst (sort_key fst b))" by simp_all
    show "distinct (map fst (sort_key fst a))" using da by (simp add: distinct_map)
    show "distinct (map fst (sort_key fst b))" using db by (simp add: distinct_map)
    show "set (sort_key fst a) = set (sort_key fst b)" using eq by simp
  qed
  then show ?thesis by (simp add: order_insensitive_def sorting_codec_def)
qed

lemma example_same_entries:
  "same_entries [(''a'', JNum 1), (''b'', JNum 2)] [(''b'', JNum 2), (''a'', JNum 1)]"
  by (simp add: same_entries_def insert_commute)

lemma example_index_entries:
  "same_entries [(''1'', JStr ''x''), (''a'', JNum 1), (''0'', JStr ''y''), (''b'', JNum 2)]
                [(''0'', JStr ''y''), (''a'', JNum 1), (''b'', JNum 2), (''1'', JStr ''x'')]"
  "named_keys [(''1'', JStr ''x''), (''a'', JNum 1), (''0'', JStr ''y''), (''b'', JNum 2)]
     = named_keys [(''0'', JStr ''y''), (''a'', JNum 1), (''b'', JNum 2), (''1'', JStr ''x'')]"
  by code_simp+

theorem makePath_order_independent_witness:
  "same_entries [(''1'', JStr ''x''), (''a'', JNum 1), (''0'', JStr ''y''), (''b'', JNum 2)]
                [(''0'', JStr ''y''), (''a'', JNum 1), (''b'', JNum 2), (''1'', JStr ''x'')]
   \<and> named_keys [(''1'', JStr ''x''), (''a'', JNum 1), (''0'', JStr ''y''), (''b'', JNum 2)]
       = named_keys [(''0'', JStr ''y''), (''a'', JNum 1), (''b'', JNum 2), (''1'', JStr ''x'')]
   \<and> makePath (example_api []) ''/x?q=z''
         (Some [(''1'', JStr ''x''), (''a'', JNum 1), (''0'', JStr ''y''), (''b'', JNum 2)])
       = makePath (example_api []) ''/x?q=z''
           (Some [(''0'', JStr ''y''), (''a'', JNum 1), (''b'', JNum 2), (''1'', JStr ''x'')])
   \<and> makePath (example_api []) ''/x?q=z''
         (Some [(''0'', JStr ''y''), (''a'', JNum 1), (''b'', JNum 2), (''1'', JStr ''x'')])
       = ''/x?0=y&1=x&q=z&a=1&b=2''
   \<and> order_insensitive (qs sorting_api)
   \<and> same_entries [(''a'', JNum 1), (''b'', JNum 2)] [(''b'', JNum 2), (''a'', JNum 1)]
   \<and> makePath sorting_api ''/x'' (Some [(''a'', JNum 1), (''b'', JNum 2)])
       = makePath sorting_api ''/x'' (Some [(''b'', JNum 2), (''a'', JNum 1)])
   \<and> makePath sorting_api ''/x'' (Some [(''b'', JNum 2), (''a'', JNum 1)]) = ''/x?a=1&b=2''"
proof -
  have q: "qs sorting_api = sorting_codec" by (simp add: sorting_api_def)
  have o: "order_insensitive (qs sorting_api)"
    by (simp only: q sorting_codec_order_insensitive)
  have v: "makePath sorting_api ''/x'' (Some [(''b'', JNum 2), (''a'', JNum 1)]) = ''/x?a=1&b=2''"
    by code_simp
  have w: "makePath (example_api []) ''/x?q=z''
         (Some [(''0'', JStr ''y''), (''a'', JNum 1), (''b'', JNum 2), (''1'', JStr ''x'')])
       = ''/x?0=y&1=x&q=z&a=1&b=2''"
    by code_simp
  from makePath_order_independent
         [OF example_index_entries(1) disjI1 [OF example_index_entries(2)],
          of "example_api []" "''/x?q=z''"]
       makePath_order_independent [OF example_same_entries disjI2 [OF o], of "''/x''"]
       example_index_entries w o example_same_entries v
  show ?thesis by (intro conjI)
qed

text \<open>
  With the default codec, Node's \<^verbatim>\<open>querystring\<close>, the claim fails: the keys
  \<^verbatim>\<open>a\<close> and \<^verbatim>\<open>b\<close> supplied in the two orders give two different paths.
\<close>

theorem makePath_key_order_counterexample:
  "same_entries [(''a'', JNum 1), (''b'', JNum 2)] [(''b'', JNum 2), (''a'', JNum 1)]
   \<and> makePath (example_api []) ''/x'' (Some [(''a'', JNum 1), (''b'', JNum 2)]) = ''/x?a=1&b=2''
   \<and> makePath (example_api []) ''/x'' (Some [(''b'', JNum 2), (''a'', JNum 1)]) = ''/x?b=2&a=1''
   \<and> makePath (example_api []) ''/x'' (Some [(''a'', JNum 1), (''b'', JNum 2)])
       \<noteq> makePath (example_api []) ''/x'' (Some [(''b'', JNum 2), (''a'', JNum 1)])"
proof -
  have 1: "makePath (example_api []) ''/x'' (Some [(''a'', JNum 1), (''b'', JNum 2)])
             = ''/x?a=1&b=2''"
    by code_simp
  have 2: "makePath (example_api []) ''/x'' (Some [(''b'', JNum 2), (''a'', JNum 1)])
             = ''/x?b=2&a=1''"
    by code_simp
  have 3: "makePath (example_api []) ''/x'' (Some [(''a'', JNum 1), (''b'', JNum 2)])
       \<noteq> makePath (example_api []) ''/x'' (Some [(''b'', JNum 2), (''a'', JNum 1)])"
    by (simp only: 1 2) simp
  from example_same_entries 1 2 3 show ?thesis by (intro conjI)
qed

section \<open>The unpaged strategy\<close>

lemma map_of_pick:
  "map_of (pick obj keys) k = (if k \<in> set keys then map_of obj k else None)"
proof -
  have "map_of (foldl (\<lambda>result k. case map_of obj k of None \<Rightarrow> result
                                   | Some v \<Rightarrow> set_prop result k v) acc keys) k
          = (if k \<in> set keys \<and> map_of obj k \<noteq> None then map_of obj k else map_of acc k)"
    for acc
  proof (induction keys arbitrary: acc)
    case Nil
    show ?case by simp
  next
    case (Cons key keys)
    show ?case
    proof (cases "map_of obj key")
      case None
      with Cons [of acc] show ?thesis by auto
    next
      case (Some v)
      with Cons [of "set_prop acc key v"] show ?thesis
        by (auto simp: map_of_set_prop)
    qed
  qed
  from this [of "[]"] show ?thesis by (auto simp: pick_def)
qed

lemma get_own_pick:
  "get_own (pick obj keys) k = (if k \<in> set keys then get_own obj k else JUndefined)"
  by (simp add: get_own_def map_of_pick)

lemma js_slice_prefix:
  assumes "0 \<le> s" "0 \<le> e"
  shows "js_slice xs s e = take (nat e - nat s) (drop (nat s) xs)"
proof -
  have unfold: "js_slice xs s e =
      take (nat (min e (int (length xs)) - min s (int (length xs))))
           (drop (nat (min s (int (length xs)))) xs)"
    using assms by (simp add: js_slice_def Let_def)
  show ?thesis
  proof (cases "s \<le> int (length xs)")
    case True
    then have k: "min s (int (length xs)) = s" by simp
    show ?thesis
    proof (cases "e \<le> int (length xs)")
      case True
      then have "min e (int (length xs)) = e" by simp
      moreover have "nat (e - s) = nat e - nat s" using assms by linarith
      ultimately show ?thesis by (simp add: unfold k)
    next
      case False
      then have f: "min e (int (length xs)) = int (length xs)" by simp
      have 1: "length (drop (nat s) xs) \<le> nat (int (length xs) - s)"
        using assms by simp
      have 2: "length (drop (nat s) xs) \<le> nat e - nat s"
        using assms False by simp
      show ?thesis by (simp only: unfold k f take_all [OF 1] take_all [OF 2])
    qed
  next
    case False
    then have "int (length xs) < s" by linarith
    then have "drop (nat s) xs = []" and "min s (int (length xs)) = int (length xs)"
      by simp_all
    then show ?thesis by (simp add: unfold)
  qed
qed

lemma js_slice_forward:
  assumes "0 \<le> s" "0 \<le> n"
  shows "js_slice xs s (min (int (length xs)) (s + n)) = take (nat n) (drop (nat s) xs)"
proof -
  let ?e = "min (int (length xs)) (s + n)"
  have "js_slice xs s ?e = take (nat ?e - nat s) (drop (nat s) xs)"
    using js_slice_prefix [of s ?e xs] assms by simp
  also have "\<dots> = take (nat n) (drop (nat s) xs)"
  proof (cases "s + n \<le> int (length xs)")
    case True
    then have "nat ?e - nat s = nat n" using assms by (simp add: min_def)
    then show ?thesis by simp
  next
    case False
    then have "nat ?e - nat s = length xs - nat s" by (simp add: min_def)
    moreover have "length (drop (nat s) xs) \<le> nat n" using False assms by simp
    ultimately show ?thesis by simp
  qed
  finally show ?thesis .
qed

lemma connectionFromArray_forward:
  assumes before: "get_own pargs ''before'' = JUndefined"
    and last: "get_own pargs ''last'' = JUndefined"
    and first: "get_own pargs ''first'' = JNum n" and n: "0 \<le> n"
    and after: "getOffsetWithDefault codec (get_own pargs ''after'') (- 1) = a"
  shows "connectionFromArray codec xs pargs =
           (let s = max (- 1) a + 1;
                es = map (\<lambda>(index, v).
                            \<lparr>node = v, cursor = JStr (offsetToCursor codec (s + int index))\<rparr>)
                         (enumerate 0 (take (nat n) (drop (nat s) xs)))
            in Inr \<lparr>edges = es,
                    pageInfo = \<lparr>startCursor = (case es of [] \<Rightarrow> JNull | e # x \<Rightarrow> cursor e),
                                endCursor = (if es = [] then JNull else cursor (List.last es)),
                                hasPreviousPage = False,
                                hasNextPage = JBool (s + n < int (length xs))\<rparr>,
                    meta = []\<rparr>)"
proof -
  define s where "s = max (- 1) a + 1"
  define len where "len = int (length xs)"
  define e where "e = min len (s + n)"
  have s0: "0 \<le> s" by (simp add: s_def)
  have nn: "\<not> n < 0" using n by simp
  have f1: "max (max (0 - 1) a) (- 1) + 1 = s" by (simp add: s_def)
  have f2: "min (min (min (0 + len) len) len) (s + n) = e" by (simp add: e_def)
  have f3: "max (s - 0) 0 = s" using s0 by simp
  have f4: "len - (0 + len - e) = e" by simp
  have f5: "js_slice xs s e = take (nat n) (drop (nat s) xs)"
    using js_slice_forward [OF s0 n, of xs] by (simp add: e_def len_def)
  have f6: "(e < len) = (s + n < len)" by (auto simp: e_def)
  show ?thesis
    unfolding connectionFromArray_def connectionFromArraySlice_def
    apply (subst Let_def)
    apply (subst Let_def)
    apply (subst Let_def)
    apply (subst Let_def)
    apply (simp only: before last first as_number.simps option.case truthy.simps if_False after)
    apply (subst Let_def)
    apply (subst Let_def)
    apply (subst Let_def)
    apply (subst Let_def)
    apply (subst Let_def)
    apply (simp only: getOffsetWithDefault_def jsval.case after nn if_False len_def [symmetric] f1)
    apply (simp only: Let_def f1 f2 f3 f4 f5 f6 s_def [symmetric])
    done
qed

lemma getUnpaginatedConnection_resolved:
  assumes "request api GET (getUrl api path (Some (omit args PAGINATION_ARG_KEYS))) JUndefined
             = Inr items"
    and "\<not> is_error items"
  shows "getUnpaginatedConnection api codec path args =
           (case items of
              JArray xs ps \<Rightarrow>
                (case connectionFromArray codec xs (pick args PAGINATION_ARG_KEYS) of
                   Inl e \<Rightarrow> Inl e
                 | Inr c \<Rightarrow> Inr (Some (c\<lparr>meta := []\<rparr>)))
            | v \<Rightarrow> Inl InvariantViolation)"
  using get_resolved [OF assms] by (simp add: getUnpaginatedConnection_def)

lemma getUnpaginatedConnection_not_null:
  "getUnpaginatedConnection api codec path args \<noteq> Inr None"
  by (simp add: getUnpaginatedConnection_def split: sum.splits jsval.splits)

lemma getUnpaginatedConnection_failure:
  assumes "request api GET (getUrl api path (Some (omit args PAGINATION_ARG_KEYS))) JUndefined
             = Inr items"
    and "\<not> isArray items"
  shows "\<exists>f. getUnpaginatedConnection api codec path args = Inl f"
    and "\<not> is_error items \<Longrightarrow> getUnpaginatedConnection api codec path args = Inl InvariantViolation"
proof -
  show "\<not> is_error items \<Longrightarrow> getUnpaginatedConnection api codec path args = Inl InvariantViolation"
    using getUnpaginatedConnection_resolved [OF assms(1)] assms(2)
    by (cases items) simp_all
  show "\<exists>f. getUnpaginatedConnection api codec path args = Inl f"
  proof (cases "is_error items")
    case False
    then show ?thesis
      using getUnpaginatedConnection_resolved [OF assms(1)] assms(2)
      by (cases items) simp_all
  next
    case True
    then have "get api (makePath api path (Some (omit args PAGINATION_ARG_KEYS))) None = Inl items"
      using assms(1) by (simp add: get_def load_eq makePath_def getUrl_def catch_identity_def)
    then show ?thesis by (simp add: getUnpaginatedConnection_def)
  qed
qed

lemma getPaginatedConnection_failure:
  assumes "request api GET (getUrl api path (Some (paged_args args))) JUndefined = Inr items"
    and "truthy items" and "\<not> truthy (member items ''meta'')"
  shows "\<exists>f. getPaginatedConnection api path args = Inl f"
    and "\<not> is_error items \<Longrightarrow> getPaginatedConnection api path args = Inl InvariantViolation"
proof -
  show "\<not> is_error items \<Longrightarrow> getPaginatedConnection api path args = Inl InvariantViolation"
    using get_resolved [OF assms(1)] assms(2,3) by (simp add: getPaginatedConnection_def)
  show "\<exists>f. getPaginatedConnection api path args = Inl f"
  proof (cases "is_error items")
    case False
    then show ?thesis
      using get_resolved [OF assms(1)] assms(2,3) by (simp add: getPaginatedConnection_def)
  next
    case True
    then have "get api (makePath api path (Some (paged_args args))) None = Inl items"
      using assms(1) by (simp add: get_def load_eq makePath_def getUrl_def catch_identity_def)
    then show ?thesis by (simp add: getPaginatedConnection_def)
  qed
qed

text \<open>
  Claim C4, as the code has it. A paged result that is truthy and has no truthy
  \<^verbatim>\<open>meta\<close> makes \<^verbatim>\<open>getPaginatedConnection\<close> fail, and a result that is not an array
  makes \<^verbatim>\<open>getUnpaginatedConnection\<close> fail: neither returns a connection, and the
  failure is the violated invariant (unless the loader had already rejected the result
  because it is an instance of Error). A paged result that is falsy, whether
  \<^verbatim>\<open>null\<close>, \<^verbatim>\<open>undefined\<close>, \<^verbatim>\<open>0\<close>, the empty string or \<^verbatim>\<open>false\<close>, is answered
  with \<^verbatim>\<open>null\<close> before \<^verbatim>\<open>meta\<close> is looked at.
\<close>

theorem contract_violations_throw:
  assumes "request api GET (getUrl api path (Some (paged_args args))) JUndefined = Inr items"
    and "truthy items" and "\<not> truthy (member items ''meta'')"
    and "request api' GET (getUrl api' path' (Some (omit args' PAGINATION_ARG_KEYS))) JUndefined
           = Inr items'"
    and "\<not> isArray items'"
    and "request api'' GET (getUrl api'' path'' (Some (paged_args args''))) JUndefined
           = Inr items''"
    and "\<not> truthy items''"
  shows "(\<exists>f. getPaginatedConnection api path args = Inl f)
         \<and> (\<not> is_error items \<longrightarrow> getPaginatedConnection api path args = Inl InvariantViolation)
         \<and> (\<exists>f. getUnpaginatedConnection api' codec path' args' = Inl f)
         \<and> (\<not> is_error items' \<longrightarrow>
              getUnpaginatedConnection api' codec path' args' = Inl InvariantViolation)
         \<and> getPaginatedConnection api'' path'' args'' = Inr None"
proof -
  have "\<not> is_error items''" using assms(7) by (cases items'') simp_all
  from get_resolved [OF assms(6) this] assms(7)
  have "getPaginatedConnection api'' path'' args'' = Inr None"
    by (simp add: getPaginatedConnection_def)
  with getPaginatedConnection_failure [OF assms(1,2,3)]
       getUnpaginatedConnection_failure [OF assms(4,5)]
  show ?thesis by blast
qed

text \<open>
  Claim C10. \<^verbatim>\<open>getUnpaginatedConnection\<close> never resolves with \<^verbatim>\<open>null\<close>; a backend
  result that is \<^verbatim>\<open>null\<close> or \<^verbatim>\<open>undefined\<close> fails the array invariant and the call
  throws.
\<close>

theorem unpaged_never_null:
  "getUnpaginatedConnection api codec path args \<noteq> Inr None
   \<and> (\<forall>v. request api GET (getUrl api path (Some (omit args PAGINATION_ARG_KEYS))) JUndefined
             = Inr v \<and> nullish v
          \<longrightarrow> getUnpaginatedConnection api codec path args = Inl InvariantViolation)"
proof -
  have "getUnpaginatedConnection api codec path args = Inl InvariantViolation"
    if "request api GET (getUrl api path (Some (omit args PAGINATION_ARG_KEYS))) JUndefined = Inr v"
      and "nullish v" for v
    using getUnpaginatedConnection_resolved [OF that(1)] that(2) by (cases v) simp_all
  then show ?thesis using getUnpaginatedConnection_not_null by blast
qed


lemma example_unpaged_url:
  "getUrl (example_api t) ''/items'' (Some (omit [(''first'', JNum 3)] PAGINATION_ARG_KEYS))
     = ''http://api/v1/items''"
  by code_simp

lemma example_unpaged_request:
  "request (example_unpaged_api response) GET
     (getUrl (example_unpaged_api response) ''/items''
        (Some (omit [(''first'', JNum 3)] PAGINATION_ARG_KEYS)))
     JUndefined = Inr response"
  by (simp add: example_unpaged_api_def example_unpaged_url example_request)

theorem contract_violations_throw_witness:
  "request (example_paged_api (JArray [JObject []] [])) GET
     (getUrl (example_paged_api (JArray [JObject []] [])) ''/items''
        (Some (paged_args [(''first'', JNum 2)])))
     JUndefined = Inr (JArray [JObject []] [])
   \<and> truthy (JArray [JObject []] [])
   \<and> \<not> truthy (member (JArray [JObject []] []) ''meta'')
   \<and> getPaginatedConnection (example_paged_api (JArray [JObject []] [])) ''/items''
        [(''first'', JNum 2)] = Inl InvariantViolation
   \<and> \<not> isArray (JObject [(''error'', JStr ''oops'')])
   \<and> getUnpaginatedConnection
        (example_unpaged_api (JObject [(''error'', JStr ''oops'')]))
        example_codec ''/items'' [(''first'', JNum 3)] = Inl InvariantViolation
   \<and> \<not> truthy (JStr [])
   \<and> getPaginatedConnection (example_paged_api (JStr [])) ''/items'' [(''first'', JNum 2)]
       = Inr None"
  using contract_violations_throw
    [OF example_paged_request [of "JArray [JObject []] []"] _ _
        example_unpaged_request [of "JObject [(''error'', JStr ''oops'')]"] _
        example_paged_request [of "JStr []"],
     of example_codec]
  by (simp add: example_paged_request get_own_def)

text \<open>
  The claim as worded covers every result without a \<^verbatim>\<open>meta\<close> property. The number 0
  is such a result and is not \<^verbatim>\<open>null\<close>, and the call does not fail: it returns
  \<^verbatim>\<open>null\<close>.
\<close>

theorem paged_falsy_result_counterexample:
  "request (example_paged_api (JNum 0)) GET
     (getUrl (example_paged_api (JNum 0)) ''/items'' (Some (paged_args [(''first'', JNum 2)])))
     JUndefined = Inr (JNum 0)
   \<and> JNum 0 \<noteq> JNull
   \<and> member (JNum 0) ''meta'' = JUndefined
   \<and> getPaginatedConnection (example_paged_api (JNum 0)) ''/items'' [(''first'', JNum 2)]
       = Inr None"
proof -
  have "getPaginatedConnection (example_paged_api (JNum 0)) ''/items'' [(''first'', JNum 2)]
          = Inr None"
    using get_resolved [OF example_paged_request [of "JNum 0"]]
    by (simp add: getPaginatedConnection_def)
  then show ?thesis by (simp add: example_paged_request)
qed

theorem unpaged_never_null_witness:
  "request (example_api []) GET
     (getUrl (example_api []) ''/items'' (Some (omit [(''first'', JNum 3)] PAGINATION_ARG_KEYS)))
     JUndefined = Inr JNull
   \<and> nullish JNull
   \<and> getUnpaginatedConnection (example_api []) example_codec ''/items'' [(''first'', JNum 3)]
       = Inl InvariantViolation"
  using unpaged_never_null
    [of "example_api []" example_codec "''/items''" "[(''first'', JNum 3)]"]
  by (simp add: example_request)

lemma pagination_keys:
  "''after'' \<in> set PAGINATION_ARG_KEYS" "''first'' \<in> set PAGINATION_ARG_KEYS"
  "''before'' \<notin> set PAGINATION_ARG_KEYS" "''last'' \<notin> set PAGINATION_ARG_KEYS"
  by (simp_all add: PAGINATION_ARG_KEYS_def)

lemma index_of_zip:
  "map (\<lambda>x. f (fst x)) (zip [0..<length ys] ys) = map f [0..<length ys]"
proof -
  have "map fst (zip [0..<length ys] ys) = [0..<length ys]"
    by (rule map_fst_zip) simp
  then show ?thesis
    by (metis (no_types, lifting) map_map comp_apply map_eq_conv)
qed

lemma enumerate_cursors:
  "map (cursor \<circ> (\<lambda>(index, v). \<lparr>node = v, cursor = f index\<rparr>)) (enumerate 0 ys)
     = map f [0..<length ys]"
  by (simp add: enumerate_eq_zip o_def split_def index_of_zip)

lemma enumerate_nodes:
  "map (node \<circ> (\<lambda>(index, v). \<lparr>node = v, cursor = f index\<rparr>)) (enumerate 0 ys) = ys"
  by (simp add: enumerate_eq_zip o_def split_def)

lemma omit_pagination_keys:
  "omit args PAGINATION_ARG_KEYS = filter (\<lambda>(k, v). k \<noteq> ''after'' \<and> k \<noteq> ''first'') args"
  unfolding omit_def PAGINATION_ARG_KEYS_def
  by (rule filter_cong) auto

lemma connectionFromArray_cong:
  assumes "get_own a ''after'' = get_own b ''after''"
    and "get_own a ''before'' = get_own b ''before''"
    and "get_own a ''first'' = get_own b ''first''"
    and "get_own a ''last'' = get_own b ''last''"
  shows "connectionFromArray codec xs a = connectionFromArray codec xs b"
  unfolding connectionFromArray_def connectionFromArraySlice_def
  by (simp only: assms)

lemma get_own_pagination_args:
  "get_own [(''after'', get_own args ''after''), (''first'', get_own args ''first'')] ''after''
     = get_own args ''after''"
  "get_own [(''after'', get_own args ''after''), (''first'', get_own args ''first'')] ''first''
     = get_own args ''first''"
  "get_own [(''after'', get_own args ''after''), (''first'', get_own args ''first'')] ''before''
     = JUndefined"
  "get_own [(''after'', get_own args ''after''), (''first'', get_own args ''first'')] ''last''
     = JUndefined"
  by (simp_all add: get_own_def)

lemma connectionFromArray_pagination_args:
  "connectionFromArray codec xs (pick args PAGINATION_ARG_KEYS)
     = connectionFromArray codec xs
         [(''after'', get_own args ''after''), (''first'', get_own args ''first'')]"
  by (rule connectionFromArray_cong)
     (simp_all only: get_own_pagination_args get_own_pick pagination_keys if_True if_False)

lemma connectionFromArray_negative:
  assumes "get_own pargs ''first'' = JNum n" and "n < 0"
  shows "connectionFromArray codec xs pargs = Inl ArgumentError"
  unfolding connectionFromArray_def connectionFromArraySlice_def
  apply (subst Let_def)
  apply (subst Let_def)
  apply (subst Let_def)
  apply (subst Let_def)
  apply (subst Let_def)
  apply (subst Let_def)
  apply (subst Let_def)
  apply (subst Let_def)
  apply (subst Let_def)
  apply (simp only: assms as_number.simps option.case if_True)
  done

lemma js_slice_rest:
  assumes "0 \<le> s"
  shows "js_slice xs s (int (length xs)) = drop (nat s) xs"
proof -
  have "js_slice xs s (int (length xs)) = take (nat (int (length xs)) - nat s) (drop (nat s) xs)"
    by (rule js_slice_prefix [OF assms]) simp
  then show ?thesis by simp
qed

lemma connectionFromArray_unlimited:
  assumes before: "get_own pargs ''before'' = JUndefined"
    and last: "get_own pargs ''last'' = JUndefined"
    and first: "as_number (get_own pargs ''first'') = None"
    and after: "getOffsetWithDefault codec (get_own pargs ''after'') (- 1) = a"
  shows "connectionFromArray codec xs pargs =
           (let s = max (- 1) a + 1;
                es = map (\<lambda>(index, v).
                            \<lparr>node = v, cursor = JStr (offsetToCursor codec (s + int index))\<rparr>)
                         (enumerate 0 (drop (nat s) xs))
            in Inr \<lparr>edges = es,
                    pageInfo = \<lparr>startCursor = (case es of [] \<Rightarrow> JNull | e # x \<Rightarrow> cursor e),
                                endCursor = (if es = [] then JNull else cursor (List.last es)),
                                hasPreviousPage = False,
                                hasNextPage = JBool False\<rparr>,
                    meta = []\<rparr>)"
proof -
  define s where "s = max (- 1) a + 1"
  define len where "len = int (length xs)"
  have s0: "0 \<le> s" by (simp add: s_def)
  have f1: "max (max (0 - 1) a) (- 1) + 1 = s" by (simp add: s_def)
  have f2: "min (min (0 + len) len) len = len" by simp
  have f3: "max (s - 0) 0 = s" using s0 by simp
  have f4: "len - (0 + len - len) = len" by simp
  have f5: "js_slice xs s len = drop (nat s) xs"
    using js_slice_rest [OF s0, of xs] by (simp add: len_def)
  show ?thesis
    unfolding connectionFromArray_def connectionFromArraySlice_def
    apply (subst Let_def)
    apply (subst Let_def)
    apply (subst Let_def)
    apply (subst Let_def)
    apply (simp only: before last first as_number.simps option.case truthy.simps if_False after)
    apply (subst Let_def)
    apply (subst Let_def)
    apply (subst Let_def)
    apply (subst Let_def)
    apply (subst Let_def)
    apply (simp only: getOffsetWithDefault_def jsval.case after if_False len_def [symmetric] f1)
    apply (simp only: Let_def f1 f2 f3 f4 f5 s_def [symmetric])
    done
qed

text \<open>
  Claim C7. The request goes to the URL built from the filter arguments: all arguments
  of the call but \<^verbatim>\<open>after\<close> and \<^verbatim>\<open>first\<close>, each with its value. When the backend
  answers that request with an array, \<^verbatim>\<open>getUnpaginatedConnection\<close> is the array
  connection of the whole array under the arguments \<^verbatim>\<open>after\<close> and \<^verbatim>\<open>first\<close> alone,
  with an empty \<^verbatim>\<open>meta\<close>. With \<open>s\<close> the offset that follows the cursor \<^verbatim>\<open>after\<close>
  (0 without a cursor that decodes): a number \<open>n \<ge> 0\<close> for \<^verbatim>\<open>first\<close> gives the \<open>n\<close>
  items from \<open>s\<close> on, and \<^verbatim>\<open>hasNextPage\<close> tells whether items remain after them; a
  negative number is refused as an argument error; anything that is not a number gives
  all the items from \<open>s\<close> on and \<^verbatim>\<open>hasNextPage = false\<close>. Ten items with
  \<^verbatim>\<open>{first: 3}\<close> give three edges and \<^verbatim>\<open>hasNextPage = true\<close>.
\<close>

theorem unpaged_connection_slices_client_side:
  assumes "request api GET
             (getUrl api path
                (Some (filter (\<lambda>(k, v). k \<noteq> ''after'' \<and> k \<noteq> ''first'') args)))
             JUndefined = Inr (JArray xs ps)"
    and "s = max (- 1) (getOffsetWithDefault codec (get_own args ''after'') (- 1)) + 1"
  shows "getUnpaginatedConnection api codec path args =
           (case connectionFromArray codec xs
                   [(''after'', get_own args ''after''), (''first'', get_own args ''first'')] of
              Inl e \<Rightarrow> Inl e
            | Inr c \<Rightarrow> Inr (Some (c\<lparr>meta := []\<rparr>)))
         \<and> (\<forall>n. get_own args ''first'' = JNum n \<and> 0 \<le> n \<longrightarrow>
              (\<exists>c. getUnpaginatedConnection api codec path args = Inr (Some c)
                 \<and> map node (edges c) = take (nat n) (drop (nat s) xs)
                 \<and> map cursor (edges c)
                     = map (\<lambda>i. JStr (offsetToCursor codec (s + int i))) [0..<length (edges c)]
                 \<and> hasNextPage (pageInfo c) = JBool (s + n < int (length xs))
                 \<and> hasPreviousPage (pageInfo c) = False
                 \<and> meta c = []))
         \<and> (\<forall>n. get_own args ''first'' = JNum n \<and> n < 0 \<longrightarrow>
              getUnpaginatedConnection api codec path args = Inl ArgumentError)
         \<and> (as_number (get_own args ''first'') = None \<longrightarrow>
              (\<exists>c. getUnpaginatedConnection api codec path args = Inr (Some c)
                 \<and> map node (edges c) = drop (nat s) xs
                 \<and> map cursor (edges c)
                     = map (\<lambda>i. JStr (offsetToCursor codec (s + int i))) [0..<length (edges c)]
                 \<and> hasNextPage (pageInfo c) = JBool False
                 \<and> hasPreviousPage (pageInfo c) = False
                 \<and> meta c = []))"
proof -
  let ?pargs = "[(''after'', get_own args ''after''), (''first'', get_own args ''first'')]"
  have req: "request api GET (getUrl api path (Some (omit args PAGINATION_ARG_KEYS))) JUndefined
               = Inr (JArray xs ps)"
    using assms(1) by (simp only: omit_pagination_keys)
  have 1: "getUnpaginatedConnection api codec path args =
           (case connectionFromArray codec xs ?pargs of
              Inl e \<Rightarrow> Inl e
            | Inr c \<Rightarrow> Inr (Some (c\<lparr>meta := []\<rparr>)))"
    using getUnpaginatedConnection_resolved [OF req]
    by (simp add: connectionFromArray_pagination_args)
  note pa = get_own_pagination_args [of args]
  have a: "getOffsetWithDefault codec (get_own ?pargs ''after'') (- 1)
             = getOffsetWithDefault codec (get_own args ''after'') (- 1)"
    by (simp only: pa)
  have 2: "\<exists>c. getUnpaginatedConnection api codec path args = Inr (Some c)
                 \<and> map node (edges c) = take (nat n) (drop (nat s) xs)
                 \<and> map cursor (edges c)
                     = map (\<lambda>i. JStr (offsetToCursor codec (s + int i))) [0..<length (edges c)]
                 \<and> hasNextPage (pageInfo c) = JBool (s + n < int (length xs))
                 \<and> hasPreviousPage (pageInfo c) = False
                 \<and> meta c = []"
    if "get_own args ''first'' = JNum n \<and> 0 \<le> n" for n
  proof -
    have first: "get_own ?pargs ''first'' = JNum n" using that by (simp add: get_own_def)
    have n: "0 \<le> n" using that by simp
    note fwd = connectionFromArray_forward [OF pa(3) pa(4) first n a, of xs]
    show ?thesis
      unfolding 1 fwd Let_def assms(2) [symmetric]
      by (simp add: enumerate_cursors enumerate_nodes)
  qed
  have 3: "getUnpaginatedConnection api codec path args = Inl ArgumentError"
    if "get_own args ''first'' = JNum n \<and> n < 0" for n
  proof -
    have first: "get_own ?pargs ''first'' = JNum n" using that by (simp add: get_own_def)
    have n: "n < 0" using that by simp
    show ?thesis
      unfolding 1 connectionFromArray_negative [OF first n] by simp
  qed
  have 4: "\<exists>c. getUnpaginatedConnection api codec path args = Inr (Some c)
                 \<and> map node (edges c) = drop (nat s) xs
                 \<and> map cursor (edges c)
                     = map (\<lambda>i. JStr (offsetToCursor codec (s + int i))) [0..<length (edges c)]
                 \<and> hasNextPage (pageInfo c) = JBool False
                 \<and> hasPreviousPage (pageInfo c) = False
                 \<and> meta c = []"
    if "as_number (get_own args ''first'') = None"
  proof -
    have first: "as_number (get_own ?pargs ''first'') = None"
      using that by (simp add: get_own_def)
    note fwd = connectionFromArray_unlimited [OF pa(3) pa(4) first a, of xs]
    show ?thesis
      unfolding 1 fwd Let_def assms(2) [symmetric]
      by (simp add: enumerate_cursors enumerate_nodes)
  qed
  from 1 2 3 4 show ?thesis by blast
qed

lemma connection_facts:
  assumes "\<exists>c. r = Inr (Some c)
              \<and> map node (edges c) = ns
              \<and> map cursor (edges c) = map f [0..<length (edges c)]
              \<and> hasNextPage (pageInfo c) = h
              \<and> hasPreviousPage (pageInfo c) = p
              \<and> meta c = m"
    and "ns = ns'" and "map f [0..<length ns'] = cs" and "h = h'"
  shows "\<exists>c. r = Inr (Some c)
              \<and> map node (edges c) = ns'
              \<and> length (edges c) = length ns'
              \<and> map cursor (edges c) = cs
              \<and> hasNextPage (pageInfo c) = h'
              \<and> meta c = m"
proof -
  from assms(1) obtain c where c: "r = Inr (Some c)" "map node (edges c) = ns"
    "map cursor (edges c) = map f [0..<length (edges c)]"
    "hasNextPage (pageInfo c) = h" "meta c = m"
    by blast
  have "length (map node (edges c)) = length ns'" using c(2) assms(2) by simp
  then have len: "length (edges c) = length ns'" by simp
  with c assms(2,3,4) show ?thesis by auto
qed

lemma example_unfiltered_url:
  "getUrl (example_api t) ''/items'' (Some []) = ''http://api/v1/items''"
  by code_simp

lemma example_unfiltered_request:
  assumes "filter (\<lambda>(k, v). k \<noteq> ''after'' \<and> k \<noteq> ''first'') args = []"
  shows "request (example_unpaged_api response) GET
     (getUrl (example_unpaged_api response) ''/items''
        (Some (filter (\<lambda>(k, v). k \<noteq> ''after'' \<and> k \<noteq> ''first'') args)))
     JUndefined = Inr response"
  unfolding assms example_unpaged_api_def example_unfiltered_url example_request
  by simp

lemma example_filtered_url:
  "getUrl (example_api t) ''/items''
     (Some (filter (\<lambda>(k, v). k \<noteq> ''after'' \<and> k \<noteq> ''first'')
              [(''status'', JStr ''open''), (''first'', JNum 2),
               (''after'', JStr ''arrayconnection:3'')]))
     = ''http://api/v1/items?status=open''"
  by code_simp

lemma example_filtered_request:
  "request example_filtered_api GET
     (getUrl example_filtered_api ''/items''
        (Some (filter (\<lambda>(k, v). k \<noteq> ''after'' \<and> k \<noteq> ''first'')
                 [(''status'', JStr ''open''), (''first'', JNum 2),
                  (''after'', JStr ''arrayconnection:3'')])))
     JUndefined = Inr (JArray example_items [])"
  unfolding example_filtered_api_def example_filtered_url example_request
  by simp

lemma example_filtered_offset:
  "(4::int) = max (- 1) (getOffsetWithDefault example_codec
                 (get_own [(''status'', JStr ''open''), (''first'', JNum 2),
                           (''after'', JStr ''arrayconnection:3'')] ''after'') (- 1)) + 1"
  by code_simp

lemma example_after_offset:
  "(8::int) = max (- 1) (getOffsetWithDefault example_codec
                 (get_own [(''after'', JStr ''arrayconnection:7'')] ''after'') (- 1)) + 1"
  by code_simp

lemma example_cursors:
  "map (\<lambda>i. JStr (offsetToCursor example_codec (0 + int i))) [0..<length [a, b, c]]
     = [JStr ''arrayconnection:0'', JStr ''arrayconnection:1'', JStr ''arrayconnection:2'']"
  "map (\<lambda>i. JStr (offsetToCursor example_codec (4 + int i))) [0..<length [a, b]]
     = [JStr ''arrayconnection:4'', JStr ''arrayconnection:5'']"
  "map (\<lambda>i. JStr (offsetToCursor example_codec (8 + int i))) [0..<length [a, b]]
     = [JStr ''arrayconnection:8'', JStr ''arrayconnection:9'']"
  by code_simp+

theorem unpaged_connection_slices_client_side_witness:
  "length example_items = 10
   \<and> (\<exists>c. getUnpaginatedConnection (example_unpaged_api (JArray example_items []))
              example_codec ''/items'' [(''first'', JNum 3)] = Inr (Some c)
          \<and> map node (edges c) = [JNum 10, JNum 11, JNum 12]
          \<and> length (edges c) = length [JNum 10, JNum 11, JNum 12]
          \<and> map cursor (edges c)
              = [JStr ''arrayconnection:0'', JStr ''arrayconnection:1'',
                 JStr ''arrayconnection:2'']
          \<and> hasNextPage (pageInfo c) = JBool True
          \<and> meta c = [])
   \<and> getUrl example_filtered_api ''/items''
        (Some (filter (\<lambda>(k, v). k \<noteq> ''after'' \<and> k \<noteq> ''first'')
                 [(''status'', JStr ''open''), (''first'', JNum 2),
                  (''after'', JStr ''arrayconnection:3'')]))
       = ''http://api/v1/items?status=open''
   \<and> request example_filtered_api GET ''http://api/v1/items?status=open'' JUndefined
       = Inr (JArray example_items [])
   \<and> request example_filtered_api GET ''http://api/v1/items'' JUndefined = Inr JNull
   \<and> (\<exists>c. getUnpaginatedConnection example_filtered_api example_codec ''/items''
              [(''status'', JStr ''open''), (''first'', JNum 2),
               (''after'', JStr ''arrayconnection:3'')] = Inr (Some c)
          \<and> map node (edges c) = [JNum 14, JNum 15]
          \<and> length (edges c) = length [JNum 14, JNum 15]
          \<and> map cursor (edges c) = [JStr ''arrayconnection:4'', JStr ''arrayconnection:5'']
          \<and> hasNextPage (pageInfo c) = JBool True
          \<and> meta c = [])
   \<and> getUnpaginatedConnection (example_unpaged_api (JArray example_items []))
        example_codec ''/items'' [(''first'', JNum (- 1))] = Inl ArgumentError
   \<and> (\<exists>c. getUnpaginatedConnection (example_unpaged_api (JArray example_items []))
              example_codec ''/items'' [(''after'', JStr ''arrayconnection:7'')] = Inr (Some c)
          \<and> map node (edges c) = [JNum 18, JNum 19]
          \<and> length (edges c) = length [JNum 18, JNum 19]
          \<and> map cursor (edges c) = [JStr ''arrayconnection:8'', JStr ''arrayconnection:9'']
          \<and> hasNextPage (pageInfo c) = JBool False
          \<and> meta c = [])"
proof -
  let ?api = "example_unpaged_api (JArray example_items [])"
  have len10: "length example_items = 10" by (simp add: example_items_def)
  have s1: "(0::int) = max (- 1) (getOffsetWithDefault example_codec
                                  (get_own [(''first'', JNum 3)] ''after'') (- 1)) + 1"
    by (simp add: getOffsetWithDefault_def get_own_def)
  have f1: "filter (\<lambda>(k, v). k \<noteq> ''after'' \<and> k \<noteq> ''first'') [(''first'', JNum 3)] = []"
    by simp
  note t1 = unpaged_connection_slices_client_side
              [OF example_unfiltered_request
                    [OF f1, where response = "JArray example_items []"] s1]
  from conjunct1 [OF conjunct2 [OF t1]]
  have "get_own [(''first'', JNum 3)] ''first'' = JNum 3 \<and> (0::int) \<le> 3 \<longrightarrow>
        (\<exists>c. getUnpaginatedConnection ?api example_codec ''/items'' [(''first'', JNum 3)]
                = Inr (Some c)
            \<and> map node (edges c) = take (nat 3) (drop (nat 0) example_items)
            \<and> map cursor (edges c)
                = map (\<lambda>i. JStr (offsetToCursor example_codec (0 + int i)))
                      [0..<length (edges c)]
            \<and> hasNextPage (pageInfo c) = JBool (0 + 3 < int (length example_items))
            \<and> hasPreviousPage (pageInfo c) = False
            \<and> meta c = [])"
    by (rule spec)
  moreover have "get_own [(''first'', JNum 3)] ''first'' = JNum 3 \<and> (0::int) \<le> 3"
    by (simp add: get_own_def)
  ultimately have e1: "\<exists>c. getUnpaginatedConnection ?api example_codec ''/items''
                [(''first'', JNum 3)] = Inr (Some c)
            \<and> map node (edges c) = take (nat 3) (drop (nat 0) example_items)
            \<and> map cursor (edges c)
                = map (\<lambda>i. JStr (offsetToCursor example_codec (0 + int i)))
                      [0..<length (edges c)]
            \<and> hasNextPage (pageInfo c) = JBool (0 + 3 < int (length example_items))
            \<and> hasPreviousPage (pageInfo c) = False
            \<and> meta c = []"
    by (rule mp)
  have r1: "\<exists>c. getUnpaginatedConnection ?api example_codec ''/items''
                [(''first'', JNum 3)] = Inr (Some c)
          \<and> map node (edges c) = [JNum 10, JNum 11, JNum 12]
          \<and> length (edges c) = length [JNum 10, JNum 11, JNum 12]
          \<and> map cursor (edges c)
              = [JStr ''arrayconnection:0'', JStr ''arrayconnection:1'',
                 JStr ''arrayconnection:2'']
          \<and> hasNextPage (pageInfo c) = JBool True
          \<and> meta c = []"
    by (rule connection_facts [OF e1 _ example_cursors(1)]) (simp_all add: example_items_def)
  let ?args = "[(''status'', JStr ''open''), (''first'', JNum 2),
                (''after'', JStr ''arrayconnection:3'')]"
  note t2 = unpaged_connection_slices_client_side
              [OF example_filtered_request example_filtered_offset]
  from conjunct1 [OF conjunct2 [OF t2]]
  have "get_own ?args ''first'' = JNum 2 \<and> (0::int) \<le> 2 \<longrightarrow>
        (\<exists>c. getUnpaginatedConnection example_filtered_api example_codec ''/items'' ?args
                = Inr (Some c)
            \<and> map node (edges c) = take (nat 2) (drop (nat 4) example_items)
            \<and> map cursor (edges c)
                = map (\<lambda>i. JStr (offsetToCursor example_codec (4 + int i)))
                      [0..<length (edges c)]
            \<and> hasNextPage (pageInfo c) = JBool (4 + 2 < int (length example_items))
            \<and> hasPreviousPage (pageInfo c) = False
            \<and> meta c = [])"
    by (rule spec)
  moreover have "get_own ?args ''first'' = JNum 2 \<and> (0::int) \<le> 2"
    by (simp add: get_own_def)
  ultimately have e2: "\<exists>c. getUnpaginatedConnection example_filtered_api example_codec
                ''/items'' ?args = Inr (Some c)
            \<and> map node (edges c) = take (nat 2) (drop (nat 4) example_items)
            \<and> map cursor (edges c)
                = map (\<lambda>i. JStr (offsetToCursor example_codec (4 + int i)))
                      [0..<length (edges c)]
            \<and> hasNextPage (pageInfo c) = JBool (4 + 2 < int (length example_items))
            \<and> hasPreviousPage (pageInfo c) = False
            \<and> meta c = []"
    by (rule mp)
  have r2: "\<exists>c. getUnpaginatedConnection example_filtered_api example_codec ''/items'' ?args
                = Inr (Some c)
          \<and> map node (edges c) = [JNum 14, JNum 15]
          \<and> length (edges c) = length [JNum 14, JNum 15]
          \<and> map cursor (edges c) = [JStr ''arrayconnection:4'', JStr ''arrayconnection:5'']
          \<and> hasNextPage (pageInfo c) = JBool True
          \<and> meta c = []"
    by (rule connection_facts [OF e2 _ example_cursors(2)]) (simp_all add: example_items_def)
  have u2: "getUrl example_filtered_api ''/items''
        (Some (filter (\<lambda>(k, v). k \<noteq> ''after'' \<and> k \<noteq> ''first'') ?args))
       = ''http://api/v1/items?status=open''"
    unfolding example_filtered_api_def by (rule example_filtered_url)
  have q2: "request example_filtered_api GET ''http://api/v1/items?status=open'' JUndefined
       = Inr (JArray example_items [])"
    using example_filtered_request by (simp only: u2)
  have q2': "request example_filtered_api GET ''http://api/v1/items'' JUndefined = Inr JNull"
    unfolding example_filtered_api_def example_request by simp
  have f3: "filter (\<lambda>(k, v). k \<noteq> ''after'' \<and> k \<noteq> ''first'') [(''first'', JNum (- 1))] = []"
    by simp
  have s3: "(0::int) = max (- 1) (getOffsetWithDefault example_codec
                                  (get_own [(''first'', JNum (- 1))] ''after'') (- 1)) + 1"
    by (simp add: getOffsetWithDefault_def get_own_def)
  note t3 = unpaged_connection_slices_client_side
              [OF example_unfiltered_request
                    [OF f3, where response = "JArray example_items []"] s3]
  from conjunct1 [OF conjunct2 [OF conjunct2 [OF t3]]]
  have "get_own [(''first'', JNum (- 1))] ''first'' = JNum (- 1) \<and> (- 1 :: int) < 0 \<longrightarrow>
        getUnpaginatedConnection ?api example_codec ''/items'' [(''first'', JNum (- 1))]
          = Inl ArgumentError"
    by (rule spec)
  moreover have "get_own [(''first'', JNum (- 1))] ''first'' = JNum (- 1) \<and> (- 1 :: int) < 0"
    by (simp add: get_own_def)
  ultimately have r3: "getUnpaginatedConnection ?api example_codec ''/items''
                         [(''first'', JNum (- 1))] = Inl ArgumentError"
    by (rule mp)
  have f4: "filter (\<lambda>(k, v). k \<noteq> ''after'' \<and> k \<noteq> ''first'')
              [(''after'', JStr ''arrayconnection:7'')] = []"
    by simp
  note t4 = unpaged_connection_slices_client_side
              [OF example_unfiltered_request
                    [OF f4, where response = "JArray example_items []"] example_after_offset]
  have "as_number (get_own [(''after'', JStr ''arrayconnection:7'')] ''first'') = None"
    by (simp add: get_own_def)
  with conjunct2 [OF conjunct2 [OF conjunct2 [OF t4]]]
  have e4: "\<exists>c. getUnpaginatedConnection ?api example_codec ''/items''
                [(''after'', JStr ''arrayconnection:7'')] = Inr (Some c)
            \<and> map node (edges c) = drop (nat 8) example_items
            \<and> map cursor (edges c)
                = map (\<lambda>i. JStr (offsetToCursor example_codec (8 + int i)))
                      [0..<length (edges c)]
            \<and> hasNextPage (pageInfo c) = JBool False
            \<and> hasPreviousPage (pageInfo c) = False
            \<and> meta c = []"
    by (rule mp)
  have r4: "\<exists>c. getUnpaginatedConnection ?api example_codec ''/items''
                [(''after'', JStr ''arrayconnection:7'')] = Inr (Some c)
          \<and> map node (edges c) = [JNum 18, JNum 19]
          \<and> length (edges c) = length [JNum 18, JNum 19]
          \<and> map cursor (edges c) = [JStr ''arrayconnection:8'', JStr ''arrayconnection:9'']
          \<and> hasNextPage (pageInfo c) = JBool False
          \<and> meta c = []"
    by (rule connection_facts [OF e4 _ example_cursors(3)]) (simp_all add: example_items_def)
  from len10 r1 u2 q2 q2' r2 r3 r4 show ?thesis
    by (intro conjI)
qed

section \<open>The keyed bulk loader: chunks and demultiplexing\<close>

lemma chunk_from_step:
  "xs \<noteq> [] \<Longrightarrow> 0 < n \<Longrightarrow> chunk_from n xs = take n xs # chunk_from n (drop n xs)"
  by (subst chunk_from.simps) simp

lemma chunk_from_Nil: "chunk_from n [] = []"
  by (subst chunk_from.simps) simp

lemma concat_chunk_from: "0 < n \<Longrightarrow> concat (chunk_from n xs) = xs"
proof (induction n xs rule: chunk_from.induct)
  case (1 n xs)
  show ?case
  proof (cases "xs = []")
    case True
    then show ?thesis by (simp add: chunk_from_Nil)
  next
    case False
    with 1 show ?thesis by (simp add: chunk_from_step)
  qed
qed

lemma chunk_from_nth:
  "0 < n \<Longrightarrow> j < length (chunk_from n xs) \<Longrightarrow>
     chunk_from n xs ! j = take n (drop (j * n) xs)"
proof (induction n xs arbitrary: j rule: chunk_from.induct)
  case (1 n xs)
  show ?case
  proof (cases "xs = []")
    case True
    with 1 show ?thesis by (simp add: chunk_from_Nil)
  next
    case False
    then have step: "chunk_from n xs = take n xs # chunk_from n (drop n xs)"
      using 1 by (simp add: chunk_from_step)
    show ?thesis
    proof (cases j)
      case 0
      then show ?thesis by (simp add: step)
    next
      case (Suc j')
      then have "j' < length (chunk_from n (drop n xs))" using 1 step by simp
      then have "chunk_from n (drop n xs) ! j' = take n (drop (j' * n) (drop n xs))"
        using 1 False by simp
      then show ?thesis by (simp add: step Suc add.commute)
    qed
  qed
qed

lemma lengths_chunk_from:
  "0 < n \<Longrightarrow>
     map length (chunk_from n xs) =
       replicate (length xs div n) n @ (if length xs mod n = 0 then [] else [length xs mod n])"
proof (induction n xs rule: chunk_from.induct)
  case (1 n xs)
  show ?case
  proof (cases "xs = []")
    case True
    then show ?thesis by (simp add: chunk_from_Nil)
  next
    case False
    then have step: "chunk_from n xs = take n xs # chunk_from n (drop n xs)"
      using 1 by (simp add: chunk_from_step)
    have IH: "map length (chunk_from n (drop n xs)) =
       replicate (length (drop n xs) div n) n
       @ (if length (drop n xs) mod n = 0 then [] else [length (drop n xs) mod n])"
      using 1 False by simp
    show ?thesis
    proof (cases "n \<le> length xs")
      case True
      then have d: "length xs div n = Suc ((length xs - n) div n)"
        and m: "length xs mod n = (length xs - n) mod n"
        using 1(2) by (simp_all add: le_div_geq le_mod_geq)
      show ?thesis using True by (simp add: step IH d m min_def)
    next
      case False
      then have "drop n xs = []" "length xs div n = 0" "length xs mod n = length xs"
        "length xs \<noteq> 0" "min (length xs) n = length xs"
        using \<open>xs \<noteq> []\<close> by simp_all
      then show ?thesis by (simp add: step chunk_from_Nil)
    qed
  qed
qed

lemma chunk_positive:
  "0 < n \<Longrightarrow> chunk xs n = chunk_from (nat n) xs"
  by (cases "xs = []") (simp_all add: chunk_def chunk_from_Nil Let_def)

lemma chunk_sixty:
  assumes "length keys = 60"
  shows "map length (chunk keys 25) = [25, 25, 10]"
proof -
  have "map length (chunk_from 25 keys) = replicate 2 25 @ [10]"
    using lengths_chunk_from [of 25 keys] assms by simp
  also have "\<dots> = [25, 25, 10]" by (simp add: numeral_2_eq_2)
  finally show ?thesis by (simp add: chunk_positive)
qed



lemma init_itemsByKey_fold:
  "own_lists (foldl (\<lambda>obj key.
              if key = ''__proto__'' then obj\<lparr>proto_array := Some []\<rparr>
              else obj\<lparr>own_lists := (own_lists obj)(key \<mapsto> [])\<rparr>) obj0 keys) k
     = (if k \<in> set keys \<and> k \<noteq> ''__proto__'' then Some [] else own_lists obj0 k)
   \<and> proto_array (foldl (\<lambda>obj key.
              if key = ''__proto__'' then obj\<lparr>proto_array := Some []\<rparr>
              else obj\<lparr>own_lists := (own_lists obj)(key \<mapsto> [])\<rparr>) obj0 keys)
     = (if ''__proto__'' \<in> set keys then Some [] else proto_array obj0)"
  by (induction keys arbitrary: obj0) auto

lemma own_lists_init:
  "own_lists (init_itemsByKey keys) k
     = (if k \<in> set keys \<and> k \<noteq> ''__proto__'' then Some [] else None)"
  unfolding init_itemsByKey_def by (simp add: init_itemsByKey_fold)

lemma proto_array_init:
  "proto_array (init_itemsByKey keys) = (if ''__proto__'' \<in> set keys then Some [] else None)"
  unfolding init_itemsByKey_def by (simp add: init_itemsByKey_fold)

lemma lists_of_init:
  "lists_of (init_itemsByKey keys) k = (if k \<in> set keys then Some [] else None)"
  by (simp add: lists_of_def own_lists_init proto_array_init)

text \<open>
  Whatever the items are, a step that does not throw leaves the properties of
  \<^verbatim>\<open>itemsByKey\<close> in place, and an own list receives the item exactly when the item
  computes its key.
\<close>

lemma add_item_own:
  assumes "add_item arrayMembers getKey obj item = Inr obj'"
  shows "own_lists obj' k =
           (case own_lists obj k of None \<Rightarrow> None
            | Some xs \<Rightarrow> Some (if getKey item = k then xs @ [item] else xs))"
    and "proto_array obj' = None \<longleftrightarrow> proto_array obj = None"
  using assms
  by (auto simp: add_item_def Let_def split: option.splits if_splits jsval.splits)

lemma add_items_own:
  assumes "add_items arrayMembers getKey obj items = Inr obj'"
  shows "own_lists obj' k =
           (case own_lists obj k of None \<Rightarrow> None
            | Some xs \<Rightarrow> Some (xs @ filter (\<lambda>item. getKey item = k) items))
         \<and> (proto_array obj' = None \<longleftrightarrow> proto_array obj = None)"
  using assms
proof (induction items arbitrary: obj)
  case Nil
  then show ?case by (auto split: option.splits)
next
  case (Cons item items)
  from Cons.prems obtain obj1 where 1: "add_item arrayMembers getKey obj item = Inr obj1"
    and 2: "add_items arrayMembers getKey obj1 items = Inr obj'"
    by (auto split: sum.splits)
  show ?case
    using Cons.IH [OF 2] add_item_own(1) [OF 1, of k] add_item_own(2) [OF 1]
    by (auto split: option.splits)
qed

text \<open>
  A step for an item whose key was requested, or is answered by no prototype, does not
  throw, and the list of the key of the item receives the item.
\<close>

lemma add_item_safe:
  assumes inv: "own_lists obj ''__proto__'' = None"
    and safe: "lists_of obj (getKey item) \<noteq> None
               \<or> \<not> reserved arrayMembers (proto_array obj \<noteq> None) (getKey item)"
  shows "\<exists>obj'. add_item arrayMembers getKey obj item = Inr obj'
           \<and> own_lists obj' ''__proto__'' = None
           \<and> (\<forall>k. lists_of obj' k =
                 (case lists_of obj k of None \<Rightarrow> None
                  | Some xs \<Rightarrow> Some (if getKey item = k then xs @ [item] else xs)))"
proof (cases "own_lists obj (getKey item)")
  case (Some xs)
  with inv have ne: "getKey item \<noteq> ''__proto__''" by auto
  from Some have "add_item arrayMembers getKey obj item
      = Inr (obj\<lparr>own_lists := (own_lists obj)(getKey item \<mapsto> xs @ [item])\<rparr>)"
    by (simp add: add_item_def Let_def)
  moreover have "\<forall>k. lists_of (obj\<lparr>own_lists := (own_lists obj)(getKey item \<mapsto> xs @ [item])\<rparr>) k =
                 (case lists_of obj k of None \<Rightarrow> None
                  | Some xs \<Rightarrow> Some (if getKey item = k then xs @ [item] else xs))"
    using Some ne by (auto simp: lists_of_def split: option.splits)
  ultimately show ?thesis using inv ne by simp
next
  case None
  show ?thesis
  proof (cases "proto_array obj")
    case n: None
    have l: "lists_of obj (getKey item) = None"
      using None n by (simp add: lists_of_def)
    with safe n have "getKey item \<notin> set object_prototype_keys"
      by (simp add: reserved_def)
    with None n have "add_item arrayMembers getKey obj item = Inr obj"
      by (simp add: add_item_def Let_def)
    moreover have "\<forall>k. lists_of obj k =
                 (case lists_of obj k of None \<Rightarrow> None
                  | Some xs \<Rightarrow> Some (if getKey item = k then xs @ [item] else xs))"
      using l by (auto split: option.splits)
    ultimately show ?thesis using inv by simp
  next
    case (Some arr)
    show ?thesis
    proof (cases "getKey item = ''__proto__''")
      case True
      with None Some have "add_item arrayMembers getKey obj item
          = Inr (obj\<lparr>proto_array := Some (arr @ [item])\<rparr>)"
        by (simp add: add_item_def Let_def)
      moreover have "\<forall>k. lists_of (obj\<lparr>proto_array := Some (arr @ [item])\<rparr>) k =
                 (case lists_of obj k of None \<Rightarrow> None
                  | Some xs \<Rightarrow> Some (if getKey item = k then xs @ [item] else xs))"
        using True Some by (auto simp: lists_of_def split: option.splits)
      ultimately show ?thesis using inv by simp
    next
      case False
      then have l: "lists_of obj (getKey item) = None"
        using None by (simp add: lists_of_def)
      with safe Some have r: "getKey item \<notin> set object_prototype_keys"
        "getKey item \<notin> set arrayMembers" "getKey item \<noteq> ''length''" "\<not> is_index (getKey item)"
        by (simp_all add: reserved_def)
      with None Some False have "add_item arrayMembers getKey obj item = Inr obj"
        by (simp add: add_item_def Let_def)
      moreover have "\<forall>k. lists_of obj k =
                 (case lists_of obj k of None \<Rightarrow> None
                  | Some xs \<Rightarrow> Some (if getKey item = k then xs @ [item] else xs))"
        using l by (auto split: option.splits)
      ultimately show ?thesis using inv by simp
    qed
  qed
qed

lemma add_items_safe:
  assumes "own_lists obj ''__proto__'' = None"
    and "\<forall>item \<in> set items.
           lists_of obj (getKey item) \<noteq> None
           \<or> \<not> reserved arrayMembers (proto_array obj \<noteq> None) (getKey item)"
  shows "\<exists>obj'. add_items arrayMembers getKey obj items = Inr obj'
           \<and> (\<forall>k. lists_of obj' k =
                 (case lists_of obj k of None \<Rightarrow> None
                  | Some xs \<Rightarrow> Some (xs @ filter (\<lambda>item. getKey item = k) items)))"
  using assms
proof (induction items arbitrary: obj)
  case Nil
  then show ?case by (auto split: option.splits)
next
  case (Cons item items)
  from Cons.prems(2) have "lists_of obj (getKey item) \<noteq> None
      \<or> \<not> reserved arrayMembers (proto_array obj \<noteq> None) (getKey item)"
    by simp
  from add_item_safe [where getKey = getKey and item = item, OF Cons.prems(1) this]
  obtain obj1 where
    1: "add_item arrayMembers getKey obj item = Inr obj1"
    and inv1: "own_lists obj1 ''__proto__'' = None"
    and l1: "\<And>k. lists_of obj1 k =
                 (case lists_of obj k of None \<Rightarrow> None
                  | Some xs \<Rightarrow> Some (if getKey item = k then xs @ [item] else xs))"
    by blast
  have p1: "proto_array obj1 = None \<longleftrightarrow> proto_array obj = None"
    by (rule add_item_own(2) [OF 1])
  have n1: "lists_of obj1 k = None \<longleftrightarrow> lists_of obj k = None" for k
    by (simp add: l1 split: option.splits)
  from Cons.prems(2) have "\<forall>item \<in> set items.
           lists_of obj1 (getKey item) \<noteq> None
           \<or> \<not> reserved arrayMembers (proto_array obj1 \<noteq> None) (getKey item)"
    by (simp add: p1 n1)
  from Cons.IH [OF inv1 this] obtain obj' where
    2: "add_items arrayMembers getKey obj1 items = Inr obj'"
    and l2: "\<And>k. lists_of obj' k =
                 (case lists_of obj1 k of None \<Rightarrow> None
                  | Some xs \<Rightarrow> Some (xs @ filter (\<lambda>item. getKey item = k) items))"
    by blast
  have "add_items arrayMembers getKey obj (item # items) = Inr obj'"
    using 1 2 by simp
  moreover have "lists_of obj' k =
                 (case lists_of obj k of None \<Rightarrow> None
                  | Some xs \<Rightarrow> Some (xs @ filter (\<lambda>x. getKey x = k) (item # items)))" for k
    by (simp add: l2 l1 split: option.splits)
  ultimately show ?case by blast
qed

lemma promise_all_Inr:
  assumes "promise_all order ps = Inr vs"
  shows "ps = map Inr vs"
proof -
  from assms have r: "rejections order ps = []"
    and vs: "vs = List.map_filter (\<lambda>p. case p of Inl e \<Rightarrow> None | Inr v \<Rightarrow> Some v) ps"
    by (auto simp: promise_all_def split: list.splits)
  have all: "\<exists>v. p = Inr v" if "p \<in> set ps" for p
  proof -
    from that obtain i where i: "i < length ps" "ps ! i = p" by (auto simp: in_set_conv_nth)
    from r have "\<forall>k \<in> set (order @ [0..<length ps]).
        (if k < length ps then (case ps ! k of Inl e \<Rightarrow> Some e | Inr v \<Rightarrow> None) else None)
          = None"
      by (simp add: rejections_def List.map_filter_def filter_empty_conv)
    moreover have "i \<in> set (order @ [0..<length ps])" using i by simp
    ultimately have "(case ps ! i of Inl e \<Rightarrow> Some e | Inr v \<Rightarrow> None) = None"
      using i(1) by (metis (no_types, lifting))
    with i(2) show ?thesis by (cases p) simp_all
  qed
  then have "\<forall>p \<in> set ps. Inr (projr p) = p" by fastforce
  then have "map (\<lambda>p. Inr (projr p)) ps = ps" by (simp add: map_idI)
  then have ps: "ps = map Inr (map projr ps)" by (simp add: o_def)
  have "vs = map projr ps"
    unfolding vs by (subst ps) (simp only: values_resolved)
  with ps show ?thesis by simp
qed


lemma createLoader_batchFn_resolved:
  assumes fetch: "map (\<lambda>chunkKeys. request api GET (getPath chunkKeys) JUndefined)
                    (chunk keys (numKeysPerChunk api)) = map Inr responses"
  shows "createLoader_batchFn api arrayMembers getPath getKey order keys =
           (case add_items arrayMembers getKey (init_itemsByKey keys)
                   (filter truthy (flatten responses)) of
              Inl e \<Rightarrow> Inl e
            | Inr itemsByKey \<Rightarrow> Inr (map (lists_of itemsByKey) keys))"
  by (simp add: createLoader_batchFn_def fetch promise_all_resolved Let_def)

lemma createLoader_batchFn_Inr:
  assumes "createLoader_batchFn api arrayMembers getPath getKey order keys = Inr rs"
  obtains responses itemsByKey where
    "map (\<lambda>chunkKeys. request api GET (getPath chunkKeys) JUndefined)
       (chunk keys (numKeysPerChunk api)) = map Inr responses"
    and "add_items arrayMembers getKey (init_itemsByKey keys)
           (filter truthy (flatten responses)) = Inr itemsByKey"
    and "rs = map (lists_of itemsByKey) keys"
proof -
  from assms obtain responses where p: "promise_all order
      (map (\<lambda>chunkKeys. request api GET (getPath chunkKeys) JUndefined)
         (chunk keys (numKeysPerChunk api))) = Inr responses"
    by (auto simp: createLoader_batchFn_def split: sum.splits)
  note fetch = promise_all_Inr [OF p]
  from assms obtain obj where "add_items arrayMembers getKey (init_itemsByKey keys)
        (filter truthy (flatten responses)) = Inr obj" and "rs = map (lists_of obj) keys"
    unfolding createLoader_batchFn_resolved [OF fetch]
    by (auto split: sum.splits)
  with fetch show ?thesis by (rule that)
qed

text \<open>
  Whenever the batch function returns, it returns one list for each key, in the order
  of the keys, and every order of completion gives that same result; the list of a key
  other than \<^verbatim>\<open>__proto__\<close> holds the truthy items with that key, in arrival order.
\<close>

lemma createLoader_batchFn_returned:
  assumes ret: "createLoader_batchFn api arrayMembers getPath getKey order keys = Inr rs"
  shows "createLoader_batchFn api arrayMembers getPath getKey order' keys = Inr rs"
    and "length rs = length keys"
    and "i < length keys \<Longrightarrow> \<exists>xs. rs ! i = Some xs"
    and "map (\<lambda>chunkKeys. request api GET (getPath chunkKeys) JUndefined)
           (chunk keys (numKeysPerChunk api)) = map Inr responses
         \<Longrightarrow> i < length keys \<Longrightarrow> keys ! i \<noteq> ''__proto__''
         \<Longrightarrow> rs ! i = Some (filter (\<lambda>item. getKey item = keys ! i)
                              (filter truthy (flatten responses)))"
proof -
  from createLoader_batchFn_Inr [OF ret] obtain responses' obj where
    f': "map (\<lambda>chunkKeys. request api GET (getPath chunkKeys) JUndefined)
       (chunk keys (numKeysPerChunk api)) = map Inr responses'"
    and obj: "add_items arrayMembers getKey (init_itemsByKey keys)
                (filter truthy (flatten responses')) = Inr obj"
    and rs: "rs = map (lists_of obj) keys"
    by blast
  show "createLoader_batchFn api arrayMembers getPath getKey order' keys = Inr rs"
    by (simp add: createLoader_batchFn_resolved [OF f'] obj rs)
  show "length rs = length keys" by (simp add: rs)
  note own = add_items_own [OF obj]
  have own_k: "own_lists obj k = Some (filter (\<lambda>item. getKey item = k)
                                        (filter truthy (flatten responses')))"
    if "k \<in> set keys" "k \<noteq> ''__proto__''" for k
    using conjunct1 [OF own [of k]] that by (simp add: own_lists_init)
  have proto: "proto_array obj \<noteq> None" if "''__proto__'' \<in> set keys"
    using conjunct2 [OF own [of "''__proto__''"]] that by (simp add: proto_array_init)
  show "\<exists>xs. rs ! i = Some xs" if i: "i < length keys"
  proof (cases "keys ! i = ''__proto__''")
    case True
    with i have "''__proto__'' \<in> set keys" by (metis nth_mem)
    from proto [OF this] True i show ?thesis by (auto simp: rs lists_of_def)
  next
    case False
    from own_k [OF nth_mem [OF i] False] False i show ?thesis by (simp add: rs lists_of_def)
  qed
  show "rs ! i = Some (filter (\<lambda>item. getKey item = keys ! i)
                              (filter truthy (flatten responses)))"
    if fetch: "map (\<lambda>chunkKeys. request api GET (getPath chunkKeys) JUndefined)
           (chunk keys (numKeysPerChunk api)) = map Inr responses"
      and i: "i < length keys" and np: "keys ! i \<noteq> ''__proto__''"
  proof -
    from fetch f' have "map Inr responses = (map Inr responses' :: (jsval + jsval) list)"
      by simp
    then have "responses = responses'" by (simp add: inj_map_eq_map)
    with own_k [OF nth_mem [OF i] np] np i show ?thesis by (simp add: rs lists_of_def)
  qed
qed

text \<open>
  The demultiplexing, when every computed key was requested or is answered by no
  prototype: the batch function returns, every requested key gets the list of the
  truthy items with that key, in arrival order, and the other items are dropped.
\<close>

lemma createLoader_demultiplexes:
  assumes fetch: "map (\<lambda>chunkKeys. request api GET (getPath chunkKeys) JUndefined)
                    (chunk keys (numKeysPerChunk api)) = map Inr responses"
    and safe: "\<forall>item \<in> set (filter truthy (flatten responses)).
                 getKey item \<in> set keys
                 \<or> \<not> reserved arrayMembers (''__proto__'' \<in> set keys) (getKey item)"
  shows "createLoader_batchFn api arrayMembers getPath getKey order keys =
           Inr (map (\<lambda>k. Some (filter (\<lambda>item. getKey item = k)
                                   (filter truthy (flatten responses)))) keys)"
proof -
  let ?items = "filter truthy (flatten responses)"
  have inv: "own_lists (init_itemsByKey keys) ''__proto__'' = None"
    by (simp add: own_lists_init)
  have "\<forall>item \<in> set ?items.
           lists_of (init_itemsByKey keys) (getKey item) \<noteq> None
           \<or> \<not> reserved arrayMembers (proto_array (init_itemsByKey keys) \<noteq> None) (getKey item)"
    using safe by (cases "''__proto__'' \<in> set keys") (auto simp: lists_of_init proto_array_init)
  from add_items_safe [OF inv this] obtain obj where
    obj: "add_items arrayMembers getKey (init_itemsByKey keys) ?items = Inr obj"
    and l: "\<And>k. lists_of obj k =
                 (case lists_of (init_itemsByKey keys) k of None \<Rightarrow> None
                  | Some xs \<Rightarrow> Some (xs @ filter (\<lambda>item. getKey item = k) ?items))"
    by blast
  have "map (lists_of obj) keys
          = map (\<lambda>k. Some (filter (\<lambda>item. getKey item = k) ?items)) keys"
    by (rule map_cong) (simp_all add: l lists_of_init)
  then show ?thesis
    by (simp add: createLoader_batchFn_resolved [OF fetch] obj)
qed

text \<open>
  Claim C5. With a positive chunk size (25 by default), the batch function of the keyed
  bulk loader cuts the keys into consecutive chunks: chunk \<open>j\<close> holds the keys from
  position \<open>j\<close> times the size on, at most the size many, so the chunks in order make up
  the keys again, without overlap; all chunks have the configured size but possibly the
  last (60 keys and size 25 give 25, 25 and 10). A result that the batch function
  returns for one order in which the chunk requests settle is returned for every other
  order, and it has one entry for each key, in the order of the keys, each entry a list.
  When every chunk request resolves, the entry of a returned result at position \<open>i\<close>,
  for a key other than \<^verbatim>\<open>__proto__\<close>, is the list of the truthy items with the key at
  \<open>i\<close>, in arrival order. And when moreover every computed key was requested or is
  answered by no prototype, the batch function does return, for every order, and the
  result is the list of these lists for all the keys, \<^verbatim>\<open>__proto__\<close> included.
\<close>

theorem createLoader_chunks_and_key_order:
  assumes n: "0 < numKeysPerChunk api"
  shows "concat (chunk keys (numKeysPerChunk api)) = keys
     \<and> (\<forall>j < length (chunk keys (numKeysPerChunk api)).
           chunk keys (numKeysPerChunk api) ! j
             = take (nat (numKeysPerChunk api)) (drop (j * nat (numKeysPerChunk api)) keys))
     \<and> map length (chunk keys (numKeysPerChunk api))
         = replicate (length keys div nat (numKeysPerChunk api)) (nat (numKeysPerChunk api))
           @ (if length keys mod nat (numKeysPerChunk api) = 0 then []
              else [length keys mod nat (numKeysPerChunk api)])
     \<and> (numKeysPerChunk api = 25 \<and> length keys = 60 \<longrightarrow>
           map length (chunk keys (numKeysPerChunk api)) = [25, 25, 10])
     \<and> numKeysPerChunk (HttpApi_constructor opts req join) = 25
     \<and> (\<forall>order order' rs.
           createLoader_batchFn api arrayMembers getPath getKey order keys = Inr rs \<longrightarrow>
             createLoader_batchFn api arrayMembers getPath getKey order' keys = Inr rs
             \<and> length rs = length keys
             \<and> (\<forall>i < length keys. \<exists>xs. rs ! i = Some xs))
     \<and> (\<forall>responses.
           map (\<lambda>chunkKeys. request api GET (getPath chunkKeys) JUndefined)
               (chunk keys (numKeysPerChunk api)) = map Inr responses \<longrightarrow>
             (\<forall>order rs i.
                createLoader_batchFn api arrayMembers getPath getKey order keys = Inr rs
                \<and> i < length keys \<and> keys ! i \<noteq> ''__proto__'' \<longrightarrow>
                  rs ! i = Some (filter (\<lambda>item. getKey item = keys ! i)
                                   (filter truthy (flatten responses))))
             \<and> ((\<forall>item \<in> set (filter truthy (flatten responses)).
                    getKey item \<in> set keys
                    \<or> \<not> reserved arrayMembers (''__proto__'' \<in> set keys) (getKey item)) \<longrightarrow>
                  (\<forall>order.
                     createLoader_batchFn api arrayMembers getPath getKey order keys =
                       Inr (map (\<lambda>k. Some (filter (\<lambda>item. getKey item = k)
                                              (filter truthy (flatten responses)))) keys))))"
proof -
  let ?n = "numKeysPerChunk api"
  have c: "chunk keys ?n = chunk_from (nat ?n) keys" using n by (rule chunk_positive)
  have n': "0 < nat ?n" using n by simp
  have 1: "concat (chunk keys ?n) = keys"
    unfolding c by (rule concat_chunk_from [OF n'])
  have 2: "\<forall>j < length (chunk keys ?n).
           chunk keys ?n ! j = take (nat ?n) (drop (j * nat ?n) keys)"
    unfolding c using chunk_from_nth [OF n'] by blast
  have 3: "map length (chunk keys ?n)
         = replicate (length keys div nat ?n) (nat ?n)
           @ (if length keys mod nat ?n = 0 then [] else [length keys mod nat ?n])"
    unfolding c by (rule lengths_chunk_from [OF n'])
  have 4: "?n = 25 \<and> length keys = 60 \<longrightarrow> map length (chunk keys ?n) = [25, 25, 10]"
    using chunk_sixty [of keys] by auto
  have 5: "numKeysPerChunk (HttpApi_constructor opts req join) = 25"
    by (simp add: HttpApi_constructor_def)
  have 6: "\<forall>order order' rs.
           createLoader_batchFn api arrayMembers getPath getKey order keys = Inr rs \<longrightarrow>
             createLoader_batchFn api arrayMembers getPath getKey order' keys = Inr rs
             \<and> length rs = length keys
             \<and> (\<forall>i < length keys. \<exists>xs. rs ! i = Some xs)"
  proof (intro allI impI conjI)
    fix order order' rs i
    assume ret: "createLoader_batchFn api arrayMembers getPath getKey order keys = Inr rs"
    show "createLoader_batchFn api arrayMembers getPath getKey order' keys = Inr rs"
      by (rule createLoader_batchFn_returned(1) [OF ret])
    show "length rs = length keys"
      by (rule createLoader_batchFn_returned(2) [OF ret])
    show "\<exists>xs. rs ! i = Some xs" if "i < length keys"
      by (rule createLoader_batchFn_returned(3) [OF ret that])
  qed
  have 7: "\<forall>responses.
           map (\<lambda>chunkKeys. request api GET (getPath chunkKeys) JUndefined)
               (chunk keys ?n) = map Inr responses \<longrightarrow>
             (\<forall>order rs i.
                createLoader_batchFn api arrayMembers getPath getKey order keys = Inr rs
                \<and> i < length keys \<and> keys ! i \<noteq> ''__proto__'' \<longrightarrow>
                  rs ! i = Some (filter (\<lambda>item. getKey item = keys ! i)
                                   (filter truthy (flatten responses))))
             \<and> ((\<forall>item \<in> set (filter truthy (flatten responses)).
                    getKey item \<in> set keys
                    \<or> \<not> reserved arrayMembers (''__proto__'' \<in> set keys) (getKey item)) \<longrightarrow>
                  (\<forall>order.
                     createLoader_batchFn api arrayMembers getPath getKey order keys =
                       Inr (map (\<lambda>k. Some (filter (\<lambda>item. getKey item = k)
                                              (filter truthy (flatten responses)))) keys)))"
  proof (intro allI impI conjI)
    fix responses order rs i
    assume "map (\<lambda>chunkKeys. request api GET (getPath chunkKeys) JUndefined)
               (chunk keys ?n) = map Inr responses"
      and "createLoader_batchFn api arrayMembers getPath getKey order keys = Inr rs
                \<and> i < length keys \<and> keys ! i \<noteq> ''__proto__''"
    then show "rs ! i = Some (filter (\<lambda>item. getKey item = keys ! i)
                                   (filter truthy (flatten responses)))"
      using createLoader_batchFn_returned(4) [of api arrayMembers getPath getKey order keys rs]
      by blast
  next
    fix responses order
    assume "map (\<lambda>chunkKeys. request api GET (getPath chunkKeys) JUndefined)
               (chunk keys ?n) = map Inr responses"
      and "\<forall>item \<in> set (filter truthy (flatten responses)).
                    getKey item \<in> set keys
                    \<or> \<not> reserved arrayMembers (''__proto__'' \<in> set keys) (getKey item)"
    then show "createLoader_batchFn api arrayMembers getPath getKey order keys =
                       Inr (map (\<lambda>k. Some (filter (\<lambda>item. getKey item = k)
                                              (filter truthy (flatten responses)))) keys)"
      by (rule createLoader_demultiplexes)
  qed
  from 1 2 3 4 5 6 7 show ?thesis by (intro conjI)
qed

lemma example_bulk_request:
  "request (example_bulk_api response) method url body = Inr response"
  by (simp add: example_bulk_api_def HttpApi_constructor_def)

lemma example_bulk_size: "numKeysPerChunk (example_bulk_api response) = 25"
  by (simp add: example_bulk_api_def HttpApi_constructor_def)

lemma example_keys_length: "length example_keys = 60"
  by (simp add: example_keys_def)

lemma example_keys_proto: "''__proto__'' \<in> set example_keys"
  by (simp add: example_keys_def)

lemma example_keys_nth:
  "example_keys ! 7 = ''k7''" "example_keys ! 8 = ''k8''" "example_keys ! 59 = ''__proto__''"
  by code_simp+

lemma example_bulk_items:
  "filter truthy (flatten (map (\<lambda>chunkKeys. example_bulk_response) (chunk example_keys 25)))
     = [JObject [(''id'', JStr ''k7''), (''n'', JNum 1)],
        JObject [(''id'', JStr ''other'')],
        JObject [(''id'', JStr ''__proto__'')],
        JObject [(''id'', JStr ''k7''), (''n'', JNum 2)],
        JObject [(''id'', JStr ''k7''), (''n'', JNum 1)],
        JObject [(''id'', JStr ''other'')],
        JObject [(''id'', JStr ''__proto__'')],
        JObject [(''id'', JStr ''k7''), (''n'', JNum 2)],
        JObject [(''id'', JStr ''k7''), (''n'', JNum 1)],
        JObject [(''id'', JStr ''other'')],
        JObject [(''id'', JStr ''__proto__'')],
        JObject [(''id'', JStr ''k7''), (''n'', JNum 2)]]"
proof -
  have "length (map length (chunk example_keys 25)) = 3"
    by (simp only: chunk_sixty [OF example_keys_length]) simp
  then have "length (chunk example_keys 25) = 3" by simp
  then have "map (\<lambda>chunkKeys. example_bulk_response) (chunk example_keys 25)
               = [example_bulk_response, example_bulk_response, example_bulk_response]"
    by (simp add: map_replicate_const numeral_3_eq_3)
  then show ?thesis
    by (simp add: flatten_def example_bulk_response_def)
qed

lemma example_other_not_reserved:
  "\<not> reserved example_array_members True ''other''"
  by code_simp

lemma example_k7_requested: "''k7'' \<in> set example_keys"
  by code_simp

theorem createLoader_chunks_and_key_order_witness:
  "0 < numKeysPerChunk (example_bulk_api example_bulk_response)
   \<and> length example_keys = 60
   \<and> example_keys ! 59 = ''__proto__''
   \<and> map length (chunk example_keys (numKeysPerChunk (example_bulk_api example_bulk_response)))
       = [25, 25, 10]
   \<and> (\<exists>rs. createLoader_batchFn (example_bulk_api example_bulk_response) example_array_members
              (createArgLoader_getPath (example_bulk_api example_bulk_response) ''/things'' ''id'')
              id_key [2, 0, 1] example_keys = Inr rs
          \<and> createLoader_batchFn (example_bulk_api example_bulk_response) example_array_members
              (createArgLoader_getPath (example_bulk_api example_bulk_response) ''/things'' ''id'')
              id_key [0, 1, 2] example_keys = Inr rs
          \<and> length rs = 60
          \<and> rs ! 7 = Some [JObject [(''id'', JStr ''k7''), (''n'', JNum 1)],
                           JObject [(''id'', JStr ''k7''), (''n'', JNum 2)],
                           JObject [(''id'', JStr ''k7''), (''n'', JNum 1)],
                           JObject [(''id'', JStr ''k7''), (''n'', JNum 2)],
                           JObject [(''id'', JStr ''k7''), (''n'', JNum 1)],
                           JObject [(''id'', JStr ''k7''), (''n'', JNum 2)]]
          \<and> rs ! 8 = Some []
          \<and> rs ! 59 = Some [JObject [(''id'', JStr ''__proto__'')],
                            JObject [(''id'', JStr ''__proto__'')],
                            JObject [(''id'', JStr ''__proto__'')]])"
proof -
  let ?api = "example_bulk_api example_bulk_response"
  let ?getPath = "createArgLoader_getPath ?api ''/things'' ''id''"
  let ?responses = "map (\<lambda>chunkKeys. example_bulk_response) (chunk example_keys 25)"
  let ?items = "filter truthy (flatten ?responses)"
  let ?rs = "map (\<lambda>k. Some (filter (\<lambda>item. id_key item = k) ?items)) example_keys"
  have n: "0 < numKeysPerChunk ?api" by (simp add: example_bulk_size)
  have fetch: "map (\<lambda>chunkKeys. request ?api GET (?getPath chunkKeys) JUndefined)
                 (chunk example_keys (numKeysPerChunk ?api)) = map Inr ?responses"
    by (simp add: example_bulk_request example_bulk_size)
  have safe: "\<forall>item \<in> set ?items.
                 id_key item \<in> set example_keys
                 \<or> \<not> reserved example_array_members (''__proto__'' \<in> set example_keys)
                       (id_key item)"
    by (simp add: example_bulk_items id_key_def get_own_def example_keys_proto
          example_k7_requested example_other_not_reserved)
  note t = createLoader_chunks_and_key_order
             [OF n, of example_keys _ _ _ example_array_members ?getPath id_key]
  note t4 = conjunct1 [OF conjunct2 [OF conjunct2 [OF conjunct2 [OF t]]]]
  note t6 = conjunct1 [OF conjunct2 [OF conjunct2 [OF conjunct2 [OF conjunct2 [OF conjunct2 [OF t]]]]]]
  note t7 = conjunct2 [OF conjunct2 [OF conjunct2 [OF conjunct2 [OF conjunct2 [OF conjunct2 [OF t]]]]]]
  have sizes: "map length (chunk example_keys (numKeysPerChunk ?api)) = [25, 25, 10]"
    using t4 example_bulk_size [of example_bulk_response] example_keys_length by blast
  from t7 fetch safe
  have ret: "createLoader_batchFn ?api example_array_members ?getPath id_key [2, 0, 1]
               example_keys = Inr ?rs"
    by blast
  from t6 ret
  have other: "createLoader_batchFn ?api example_array_members ?getPath id_key [0, 1, 2]
                 example_keys = Inr ?rs"
    and "length ?rs = length example_keys"
    by blast+
  then have len: "length ?rs = 60" by (simp only: example_keys_length)
  have i: "7 < length example_keys" "8 < length example_keys" "59 < length example_keys"
    by (simp_all add: example_keys_length)
  have r7: "?rs ! 7 = Some [JObject [(''id'', JStr ''k7''), (''n'', JNum 1)],
                           JObject [(''id'', JStr ''k7''), (''n'', JNum 2)],
                           JObject [(''id'', JStr ''k7''), (''n'', JNum 1)],
                           JObject [(''id'', JStr ''k7''), (''n'', JNum 2)],
                           JObject [(''id'', JStr ''k7''), (''n'', JNum 1)],
                           JObject [(''id'', JStr ''k7''), (''n'', JNum 2)]]"
    by (simp only: nth_map [OF i(1)] example_keys_nth example_bulk_items)
       (simp add: id_key_def get_own_def)
  have r8: "?rs ! 8 = Some []"
    by (simp only: nth_map [OF i(2)] example_keys_nth example_bulk_items)
       (simp add: id_key_def get_own_def)
  have r59: "?rs ! 59 = Some [JObject [(''id'', JStr ''__proto__'')],
                            JObject [(''id'', JStr ''__proto__'')],
                            JObject [(''id'', JStr ''__proto__'')]]"
    by (simp only: nth_map [OF i(3)] example_keys_nth example_bulk_items)
       (simp add: id_key_def get_own_def)
  from ret other len r7 r8 r59 have
    "\<exists>rs. createLoader_batchFn ?api example_array_members ?getPath id_key [2, 0, 1]
              example_keys = Inr rs
          \<and> createLoader_batchFn ?api example_array_members ?getPath id_key [0, 1, 2]
              example_keys = Inr rs
          \<and> length rs = 60
          \<and> rs ! 7 = Some [JObject [(''id'', JStr ''k7''), (''n'', JNum 1)],
                           JObject [(''id'', JStr ''k7''), (''n'', JNum 2)],
                           JObject [(''id'', JStr ''k7''), (''n'', JNum 1)],
                           JObject [(''id'', JStr ''k7''), (''n'', JNum 2)],
                           JObject [(''id'', JStr ''k7''), (''n'', JNum 1)],
                           JObject [(''id'', JStr ''k7''), (''n'', JNum 2)]]
          \<and> rs ! 8 = Some []
          \<and> rs ! 59 = Some [JObject [(''id'', JStr ''__proto__'')],
                            JObject [(''id'', JStr ''__proto__'')],
                            JObject [(''id'', JStr ''__proto__'')]]"
    by (intro exI [of _ ?rs] conjI)
  with n example_keys_length example_keys_nth(3) sizes show ?thesis by (intro conjI)
qed

text \<open>
  Claim C6. The claim says that an item whose computed key was not requested is dropped
  silently. The code reads \<^verbatim>\<open>itemsByKey[key]\<close> on an object literal, so a computed key
  such as \<^verbatim>\<open>constructor\<close> that was not requested finds the inherited member, which is
  truthy and has no \<^verbatim>\<open>push\<close>: the batch function throws a TypeError and the whole
  batch is lost, the item for the requested key \<^verbatim>\<open>a\<close> included. For the keys that no
  prototype answers the claim holds, which is \<open>createLoader_demultiplexes\<close> above.
\<close>

theorem createLoader_unrequested_prototype_key:
  "createLoader_batchFn
     (example_bulk_api
        (JArray [JObject [(''id'', JStr ''a'')], JObject [(''id'', JStr ''constructor'')]] []))
     example_array_members
     (createArgLoader_getPath
        (example_bulk_api
           (JArray [JObject [(''id'', JStr ''a'')], JObject [(''id'', JStr ''constructor'')]] []))
        ''/things'' ''id'')
     id_key [] [''a'', ''b'']
   = Inl PushNotAFunction"
  by code_simp

end
